theory Spec2Isabelle
  imports Main "HOL-Library.Finite_Map" "HOL-Library.Sublist" "HOL-Library.Word" "HOL-Library.AList"
begin

section \<open>Data model\<close>

text \<open>
  Go values are read as follows. A slice \<^verbatim>\<open>[]T\<close> is a \<open>T list option\<close>, \<open>None\<close> being the
  nil slice (the matcher tells nil from empty); a pointer \<^verbatim>\<open>*T\<close> is a \<open>T option\<close>, \<open>None\<close>
  being nil; a map is a finite map, \<open>None\<close> being the nil map. \<^verbatim>\<open>Timestamp\<close> is an int64
  that is only compared, and \<^verbatim>\<open>Kind\<close> an int that is only compared: both are \<open>int\<close>.
  A run-time panic of the Go code is a value of type \<open>error\<close>.
\<close>

datatype error = SliceBoundsOutOfRange | NilPointerDereference | IndexOutOfRange

type_synonym Timestamp = int

type_synonym Tag = "string list"

type_synonym TagValues = "string option list"

type_synonym TagMap = "(string, TagValues list) fmap"

text \<open>
  Modelled from the spec: the \<^verbatim>\<open>Event\<close> struct is declared outside the given sources. The
  fields are those of the spec's data model (id, pubkey, created_at, kind, tags, content,
  sig), under the names the matcher uses for them.
\<close>

record Event =
  ID :: string
  PubKey :: string
  CreatedAt :: Timestamp
  Kind :: int
  Tags :: "Tag list"
  Content :: string
  Sig :: string

record Filter =
  IDs :: "string list option"
  Kinds :: "int list option"
  Authors :: "string list option"
  Tags :: "TagMap option"
  Since :: "Timestamp option"
  Until :: "Timestamp option"
  Limit :: int
  Search :: string
  LimitZero :: bool

text \<open>
  Modelled from the spec: \<^verbatim>\<open>Tag.Key\<close> is declared outside the given sources; it returns
  element 0 of the tag. The spec gives every tag at least one element; for the empty
  slice the model returns the empty string.
\<close>

definition Key :: "Tag \<Rightarrow> string" where
  "Key tag = (case tag of [] \<Rightarrow> [] | k # _ \<Rightarrow> k)"

text \<open>The Go expression \<^verbatim>\<open>tag[1:]\<close>: it panics on a slice of length 0.\<close>

definition slice_from_1 :: "Tag \<Rightarrow> error + Tag" where
  "slice_from_1 tag = (case tag of [] \<Rightarrow> Inl SliceBoundsOutOfRange | _ # vs \<Rightarrow> Inr vs)"

text \<open>Reading a map that may be nil: a nil map reads as the empty map.\<close>

definition tagmap :: "TagMap option \<Rightarrow> TagMap" where
  "tagmap m = (case m of None \<Rightarrow> fmempty | Some t \<Rightarrow> t)"

text \<open>\<^verbatim>\<open>m[k]\<close> for a slice-valued map: the nil slice, of length 0, when the key is absent.\<close>

definition index_map :: "TagMap option \<Rightarrow> string \<Rightarrow> TagValues list" where
  "index_map m k = (case fmlookup (tagmap m) k of None \<Rightarrow> [] | Some sets \<Rightarrow> sets)"

section \<open>src/filter.go: matching\<close>

text \<open>
  \<^verbatim>\<open>matchesTagSet(tag, values)\<close>: the loop over \<^verbatim>\<open>values\<close> with its index \<open>i\<close>. A nil
  value is skipped; a value with \<open>i \<ge> len(tag)\<close> or \<open>tag[i] \<noteq> *value\<close> returns false.
\<close>

fun matchesTagSet_from :: "nat \<Rightarrow> Tag \<Rightarrow> TagValues \<Rightarrow> bool" where
  "matchesTagSet_from i tag [] = True"
| "matchesTagSet_from i tag (None # values) = matchesTagSet_from (Suc i) tag values"
| "matchesTagSet_from i tag (Some v # values) =
     (if i \<ge> length tag \<or> tag ! i \<noteq> v then False
      else matchesTagSet_from (Suc i) tag values)"

definition matchesTagSet :: "Tag \<Rightarrow> TagValues \<Rightarrow> bool" where
  "matchesTagSet tag values = matchesTagSet_from 0 tag values"

text \<open>
  The inner loop of \<^verbatim>\<open>MatchesIgnoringTimestampConstraints\<close>:
  \<^verbatim>\<open>hasSetMatch = hasSetMatch || ef.matchesTagSet(tag[1:], filterValues)\<close>.
  Go's \<^verbatim>\<open>||\<close> evaluates its right operand, and with it \<^verbatim>\<open>tag[1:]\<close>, only when the left
  one is false.
\<close>

fun sets_loop :: "Tag \<Rightarrow> TagValues list \<Rightarrow> bool \<Rightarrow> error + bool" where
  "sets_loop tag [] hasSetMatch = Inr hasSetMatch"
| "sets_loop tag (filterValues # sets) hasSetMatch =
     (if hasSetMatch then sets_loop tag sets True
      else (case slice_from_1 tag of
              Inl e \<Rightarrow> Inl e
            | Inr vs \<Rightarrow> sets_loop tag sets (matchesTagSet vs filterValues)))"

text \<open>
  The outer loop over \<^verbatim>\<open>event.Tags\<close>, with \<^verbatim>\<open>wantTags\<close> as the state: a tag whose key is
  not wanted is skipped, a wanted key with no matching set returns false, a wanted key
  with a match is deleted. After the loop the result is \<^verbatim>\<open>len(wantTags) == 0\<close>.
\<close>

fun tags_loop :: "TagMap \<Rightarrow> Tag list \<Rightarrow> error + bool" where
  "tags_loop wantTags [] = Inr (fmdom wantTags = {||})"
| "tags_loop wantTags (tag # tags) =
     (case fmlookup wantTags (Key tag) of
        None \<Rightarrow> tags_loop wantTags tags
      | Some sets \<Rightarrow>
          (case sets_loop tag sets (length sets = 0) of
             Inl e \<Rightarrow> Inl e
           | Inr hasSetMatch \<Rightarrow>
               if \<not> hasSetMatch then Inr False
               else tags_loop (fmdrop (Key tag) wantTags) tags))"

text \<open>\<^verbatim>\<open>slices.Contains\<close> on a slice that is not nil.\<close>

definition Contains :: "'a list \<Rightarrow> 'a \<Rightarrow> bool" where
  "Contains s v = (v \<in> set s)"

definition MatchesIgnoringTimestampConstraints :: "Filter \<Rightarrow> Event option \<Rightarrow> error + bool" where
  "MatchesIgnoringTimestampConstraints ef event =
     (case event of
        None \<Rightarrow> Inr False
      | Some ev \<Rightarrow>
          if IDs ef \<noteq> None \<and> \<not> Contains (the (IDs ef)) (ID ev) then Inr False
          else if Kinds ef \<noteq> None \<and> \<not> Contains (the (Kinds ef)) (Kind ev) then Inr False
          else if Authors ef \<noteq> None \<and> \<not> Contains (the (Authors ef)) (PubKey ev) then Inr False
          else tags_loop (tagmap (Filter.Tags ef)) (Event.Tags ev))"

text \<open>
  \<^verbatim>\<open>Filter.Matches\<close>. \<^verbatim>\<open>event.CreatedAt\<close> dereferences the event, and is evaluated only
  when \<^verbatim>\<open>Since\<close> (or \<^verbatim>\<open>Until\<close>) is not nil.
\<close>

definition created_at :: "Event option \<Rightarrow> error + Timestamp" where
  "created_at event = (case event of None \<Rightarrow> Inl NilPointerDereference | Some ev \<Rightarrow> Inr (CreatedAt ev))"

definition Matches :: "Filter \<Rightarrow> Event option \<Rightarrow> error + bool" where
  "Matches ef event =
     (case MatchesIgnoringTimestampConstraints ef event of
        Inl e \<Rightarrow> Inl e
      | Inr m \<Rightarrow>
          if \<not> m then Inr False
          else (case (case Since ef of None \<Rightarrow> Inr False
                      | Some since \<Rightarrow> (case created_at event of Inl e \<Rightarrow> Inl e | Inr c \<Rightarrow> Inr (c < since))) of
                  Inl e \<Rightarrow> Inl e
                | Inr before \<Rightarrow>
                    if before then Inr False
                    else (case (case Until ef of None \<Rightarrow> Inr False
                                | Some until \<Rightarrow> (case created_at event of Inl e \<Rightarrow> Inl e | Inr c \<Rightarrow> Inr (c > until))) of
                            Inl e \<Rightarrow> Inl e
                          | Inr after \<Rightarrow> if after then Inr False else Inr True)))"

section \<open>src/unnamed/part_002: the other version of the matcher\<close>

text \<open>
  The closure \<^verbatim>\<open>valuesOf(name)\<close>: the values \<^verbatim>\<open>tag[1:]\<close> of the first tag of the event whose
  key is \<^verbatim>\<open>name\<close>, or the nil slice when there is none. The slice \<^verbatim>\<open>tag[1:]\<close> of a tag
  that is not empty is not nil, also when it has no element.
\<close>

fun valuesOf :: "Tag list \<Rightarrow> string \<Rightarrow> error + Tag option" where
  "valuesOf [] name = Inr None"
| "valuesOf (tag # tags) name =
     (if Key tag = name
      then (case slice_from_1 tag of Inl e \<Rightarrow> Inl e | Inr vs \<Rightarrow> Inr (Some vs))
      else valuesOf tags name)"

text \<open>
  The loops over \<^verbatim>\<open>values[i]\<close> and \<^verbatim>\<open>values[i][j]\<close>: the result is \<open>False\<close> when the
  function returns false inside the loop, and \<open>True\<close> when the loop runs to its end.
\<close>

fun values_j_loop :: "nat \<Rightarrow> Tag \<Rightarrow> TagValues \<Rightarrow> bool" where
  "values_j_loop j eventTagValues [] = True"
| "values_j_loop j eventTagValues (None # vs) = values_j_loop (Suc j) eventTagValues vs"
| "values_j_loop j eventTagValues (Some v # vs) =
     (if j \<ge> length eventTagValues \<or> v \<noteq> eventTagValues ! j then False
      else values_j_loop (Suc j) eventTagValues vs)"

fun values_i_loop :: "Tag \<Rightarrow> TagValues list \<Rightarrow> bool" where
  "values_i_loop eventTagValues [] = True"
| "values_i_loop eventTagValues (vs # values) =
     (if \<not> values_j_loop 0 eventTagValues vs then False
      else values_i_loop eventTagValues values)"

text \<open>
  The loop \<^verbatim>\<open>for tag, values := range ef.Tags\<close>. Go leaves the order of a range over a
  map open, so the loop takes the entries of the map in the order in which they are
  visited; \<open>range_order\<close> says that a list is such an enumeration of a map.
\<close>

fun range_Tags :: "Tag list \<Rightarrow> (string \<times> TagValues list) list \<Rightarrow> error + bool" where
  "range_Tags eventTags [] = Inr True"
| "range_Tags eventTags ((tag, values) # entries) =
     (case valuesOf eventTags tag of
        Inl e \<Rightarrow> Inl e
      | Inr None \<Rightarrow> Inr False
      | Inr (Some eventTagValues) \<Rightarrow>
          if \<not> values_i_loop eventTagValues values then Inr False
          else range_Tags eventTags entries)"

definition range_order :: "(string \<times> TagValues list) list \<Rightarrow> TagMap \<Rightarrow> bool" where
  "range_order entries m = (distinct (map fst entries) \<and> fmap_of_list entries = m)"

definition MatchesIgnoringTimestampConstraints_part_002 ::
  "(string \<times> TagValues list) list \<Rightarrow> Filter \<Rightarrow> Event option \<Rightarrow> error + bool" where
  "MatchesIgnoringTimestampConstraints_part_002 entries ef event =
     (case event of
        None \<Rightarrow> Inr False
      | Some ev \<Rightarrow>
          if IDs ef \<noteq> None \<and> \<not> Contains (the (IDs ef)) (ID ev) then Inr False
          else if Kinds ef \<noteq> None \<and> \<not> Contains (the (Kinds ef)) (Kind ev) then Inr False
          else if Authors ef \<noteq> None \<and> \<not> Contains (the (Authors ef)) (PubKey ev) then Inr False
          else range_Tags (Event.Tags ev) entries)"

section \<open>src/filter.go: GetTheoreticalLimit\<close>

text \<open>\<^verbatim>\<open>len(s)\<close> and \<^verbatim>\<open>range s\<close> for a slice that may be nil.\<close>

definition len :: "'a list option \<Rightarrow> nat" where
  "len s = (case s of None \<Rightarrow> 0 | Some xs \<Rightarrow> length xs)"

definition elems :: "'a list option \<Rightarrow> 'a list" where
  "elems s = (case s of None \<Rightarrow> [] | Some xs \<Rightarrow> xs)"

text \<open>
  Go's \<^verbatim>\<open>int\<close> is 64 bits wide on the platforms the library targets, and its
  multiplication wraps around in two's complement.
\<close>

definition int_mul :: "int \<Rightarrow> int \<Rightarrow> int" where
  "int_mul a b = (a * b + 2 ^ 63) mod 2 ^ 64 - 2 ^ 63"

text \<open>
  Modelled from the spec: \<^verbatim>\<open>IsReplaceableKind\<close> and \<^verbatim>\<open>IsAddressableKind\<close> are declared
  outside the given sources. Replaceable kinds are 0, 3, 41 and 10000 to 19999;
  addressable kinds are 30000 to 39999.
\<close>

definition IsReplaceableKind :: "int \<Rightarrow> bool" where
  "IsReplaceableKind kind = (kind = 0 \<or> kind = 3 \<or> kind = 41 \<or> (10000 \<le> kind \<and> kind \<le> 19999))"

definition IsAddressableKind :: "int \<Rightarrow> bool" where
  "IsAddressableKind kind = (30000 \<le> kind \<and> kind \<le> 39999)"

text \<open>The loops \<^verbatim>\<open>for _, kind := range filter.Kinds\<close>, which clear a flag and break.\<close>

fun all_kinds :: "(int \<Rightarrow> bool) \<Rightarrow> int list \<Rightarrow> bool" where
  "all_kinds p [] = True"
| "all_kinds p (kind # kinds) = (if \<not> p kind then False else all_kinds p kinds)"

text \<open>
  The two nested loops that count \<^verbatim>\<open>dlen\<close>. The counter cannot overflow: it is bounded
  by the number of pointers held in memory.
\<close>

fun count_values :: "TagValues \<Rightarrow> int \<Rightarrow> int" where
  "count_values [] dlen = dlen"
| "count_values (v # values) dlen =
     count_values values (if v \<noteq> None then dlen + 1 else dlen)"

fun count_sets :: "TagValues list \<Rightarrow> int \<Rightarrow> int" where
  "count_sets [] dlen = dlen"
| "count_sets (values # sets) dlen = count_sets sets (count_values values dlen)"

definition GetTheoreticalLimit :: "Filter \<Rightarrow> int" where
  "GetTheoreticalLimit flt =
     (if len (IDs flt) > 0 then int (len (IDs flt))
      else if len (Kinds flt) = 0 then - 1
      else if len (Authors flt) > 0 then
        (if all_kinds IsReplaceableKind (elems (Kinds flt))
         then int_mul (int (len (Authors flt))) (int (len (Kinds flt)))
         else if length (index_map (Filter.Tags flt) ''d'') > 0 then
           (if all_kinds IsAddressableKind (elems (Kinds flt))
            then int_mul (int_mul (int (len (Authors flt))) (int (len (Kinds flt))))
                   (count_sets (index_map (Filter.Tags flt) ''d'') 0)
            else - 1)
         else - 1)
      else - 1)"

section \<open>src/filter.go: FilterEqual and Clone on values\<close>

text \<open>
  Modelled from the spec: \<^verbatim>\<open>similar\<close> and \<^verbatim>\<open>arePointerValuesEqual\<close> are declared outside
  the given sources. The spec makes ids, kinds and authors sets, and the test
  \<^verbatim>\<open>TestFilterEquality\<close> equates kinds listed in a different order: two slices are similar
  when they have the same length and every element of the first occurs in the second.
  Two pointers have equal values when both are nil or both point to equal values.
\<close>

definition similar :: "'a list option \<Rightarrow> 'a list option \<Rightarrow> bool" where
  "similar as bs =
     (if len as \<noteq> len bs then False
      else list_all (\<lambda>a. a \<in> set (elems bs)) (elems as))"

definition arePointerValuesEqual :: "'a option \<Rightarrow> 'a option \<Rightarrow> bool" where
  "arePointerValuesEqual a b =
     (case (a, b) of
        (None, None) \<Rightarrow> True
      | (Some x, Some y) \<Rightarrow> x = y
      | _ \<Rightarrow> False)"

text \<open>The function literal that \<^verbatim>\<open>FilterEqual\<close> passes to \<^verbatim>\<open>slices.EqualFunc\<close>.\<close>

definition TagValues_equal :: "TagValues \<Rightarrow> TagValues \<Rightarrow> bool" where
  "TagValues_equal a b =
     (if length a \<noteq> length b then False
      else list_all (\<lambda>i. arePointerValuesEqual (a ! i) (b ! i)) [0..<length a])"

text \<open>\<^verbatim>\<open>slices.EqualFunc\<close>: equal lengths, and the elements pairwise related.\<close>

fun EqualFunc :: "'a list \<Rightarrow> 'b list \<Rightarrow> ('a \<Rightarrow> 'b \<Rightarrow> bool) \<Rightarrow> bool" where
  "EqualFunc [] [] eq = True"
| "EqualFunc (x # xs) (y # ys) eq = (if \<not> eq x y then False else EqualFunc xs ys eq)"
| "EqualFunc _ _ eq = False"

text \<open>
  \<^verbatim>\<open>FilterEqual\<close>. The range over \<^verbatim>\<open>a.Tags\<close> returns false at the first key that fails
  and does nothing else, so its result does not depend on the order of the keys.
  \<^verbatim>\<open>Limit\<close> is not compared.
\<close>

definition FilterEqual :: "Filter \<Rightarrow> Filter \<Rightarrow> bool" where
  "FilterEqual a b =
     (if \<not> similar (Kinds a) (Kinds b) then False
      else if \<not> similar (IDs a) (IDs b) then False
      else if \<not> similar (Authors a) (Authors b) then False
      else if fcard (fmdom (tagmap (Filter.Tags a))) \<noteq> fcard (fmdom (tagmap (Filter.Tags b))) then False
      else if \<not> (\<forall>f\<in>fmdom' (tagmap (Filter.Tags a)).
                  case fmlookup (tagmap (Filter.Tags b)) f of
                    None \<Rightarrow> False
                  | Some bv \<Rightarrow> EqualFunc (index_map (Filter.Tags a) f) bv TagValues_equal) then False
      else if \<not> arePointerValuesEqual (Since a) (Since b) then False
      else if \<not> arePointerValuesEqual (Until a) (Until b) then False
      else if Search a \<noteq> Search b then False
      else if LimitZero a \<noteq> LimitZero b then False
      else True)"

text \<open>
  \<^verbatim>\<open>slices.Clone(s)\<close> is \<^verbatim>\<open>append(s[:0:0], s...)\<close>: nil for nil, and otherwise a slice with
  the same elements. On values the copy is the slice itself; the store model below
  keeps track of which arrays the copy shares with the original.
\<close>

definition slices_Clone :: "'a list option \<Rightarrow> 'a list option" where
  "slices_Clone s = (case s of None \<Rightarrow> None | Some xs \<Rightarrow> Some ([] @ xs))"

definition Clone :: "Filter \<Rightarrow> Filter" where
  "Clone ef =
     \<lparr>IDs = slices_Clone (IDs ef),
      Kinds = slices_Clone (Kinds ef),
      Authors = slices_Clone (Authors ef),
      Tags = (case Filter.Tags ef of
                None \<Rightarrow> None
              | Some m \<Rightarrow> Some (fmmap (\<lambda>v. [] @ v) m)),
      Since = (case Since ef of None \<Rightarrow> None | Some since \<Rightarrow> Some since),
      Until = (case Until ef of None \<Rightarrow> None | Some until \<Rightarrow> Some until),
      Limit = Limit ef,
      Search = Search ef,
      LimitZero = LimitZero ef\<rparr>"

section \<open>src/unnamed/part_003: ParseMessage\<close>

text \<open>
  A message is a byte string. The nine envelope types are named by their labels, in
  the order of the cases of the switch in \<^verbatim>\<open>ParseMessage\<close>.
\<close>

datatype envelope_type = EVENT | REQ | COUNT | NOTICE | EOSE | OK | AUTH | CLOSED | CLOSE

fun Label :: "envelope_type \<Rightarrow> string" where
  "Label EVENT = ''EVENT''"
| "Label REQ = ''REQ''"
| "Label COUNT = ''COUNT''"
| "Label NOTICE = ''NOTICE''"
| "Label EOSE = ''EOSE''"
| "Label OK = ''OK''"
| "Label AUTH = ''AUTH''"
| "Label CLOSED = ''CLOSED''"
| "Label CLOSE = ''CLOSE''"

definition switch_order :: "envelope_type list" where
  "switch_order = [EVENT, REQ, COUNT, NOTICE, EOSE, OK, AUTH, CLOSED, CLOSE]"

text \<open>
  \<^verbatim>\<open>bytes.Index(s, []byte{c})\<close>: the index of the first \<open>c\<close> in \<open>s\<close>, or \<open>-1\<close>.
  \<^verbatim>\<open>bytes.Contains(b, sub)\<close>: \<open>sub\<close> occurs in \<open>b\<close> as a contiguous run.
\<close>

fun Index_from :: "nat \<Rightarrow> string \<Rightarrow> char \<Rightarrow> int" where
  "Index_from i [] c = - 1"
| "Index_from i (x # xs) c = (if x = c then int i else Index_from (Suc i) xs c)"

definition bytes_Index :: "string \<Rightarrow> char \<Rightarrow> int" where
  "bytes_Index s c = Index_from 0 s c"

definition bytes_Contains :: "string \<Rightarrow> string \<Rightarrow> bool" where
  "bytes_Contains b sub = sublist sub b"

text \<open>The switch: the first case whose label occurs in the bytes decides.\<close>

definition switch_label :: "string \<Rightarrow> envelope_type option" where
  "switch_label label =
     (if bytes_Contains label ''EVENT'' then Some EVENT
      else if bytes_Contains label ''REQ'' then Some REQ
      else if bytes_Contains label ''COUNT'' then Some COUNT
      else if bytes_Contains label ''NOTICE'' then Some NOTICE
      else if bytes_Contains label ''EOSE'' then Some EOSE
      else if bytes_Contains label ''OK'' then Some OK
      else if bytes_Contains label ''AUTH'' then Some AUTH
      else if bytes_Contains label ''CLOSED'' then Some CLOSED
      else if bytes_Contains label ''CLOSE'' then Some CLOSE
      else None)"

text \<open>
  The errors of \<^verbatim>\<open>ParseMessage\<close>: \<^verbatim>\<open>ErrMessageUnknown\<close>, and
  \<^verbatim>\<open>errors.Join(ErrMessageParse, err)\<close> for an error \<open>err\<close> of an \<^verbatim>\<open>UnmarshalJSON\<close>.
\<close>

datatype 'e parse_error = ErrMessageUnknown | Join_ErrMessageParse 'e

text \<open>
  \<^verbatim>\<open>ParseMessage\<close>. The methods \<^verbatim>\<open>UnmarshalJSON\<close> of the envelope types decode with the
  libraries gjson and easyjson; \<^verbatim>\<open>ParseMessage\<close> takes them as a parameter: for an
  envelope type and a message, the receiver (created empty by the switch) after the call,
  and the error returned, if any.
\<close>

definition ParseMessage ::
  "(envelope_type \<Rightarrow> string \<Rightarrow> 'v \<times> 'e option) \<Rightarrow> string \<Rightarrow> 'e parse_error + 'v" where
  "ParseMessage UnmarshalJSON message =
     (let firstComma = bytes_Index message CHR '','' in
      if firstComma = - 1 then Inl ErrMessageUnknown
      else
        let label = take (nat firstComma) message in
        (case switch_label label of
           None \<Rightarrow> Inl ErrMessageUnknown
         | Some t \<Rightarrow>
             (case UnmarshalJSON t message of
                (v, Some err) \<Rightarrow> Inl (Join_ErrMessageParse err)
              | (v, None) \<Rightarrow> Inr v)))"

section \<open>src/unnamed/part_003: CountEnvelope.UnmarshalJSON\<close>

type_synonym byte = "8 word"

text \<open>
  \<^verbatim>\<open>hex.DecodeString\<close> of Go's standard library: the bytes are decoded pair by pair; the
  first character that is not a hexadecimal digit stops the decoding with
  \<^verbatim>\<open>InvalidByteError\<close>, an odd length ends it with \<^verbatim>\<open>ErrLength\<close>; the bytes decoded so
  far are returned with the error.
\<close>

datatype hex_error = InvalidByteError char | ErrLength

definition fromHexChar :: "char \<Rightarrow> byte option" where
  "fromHexChar c =
     (let n = (of_char c :: nat) in
      if 48 \<le> n \<and> n \<le> 57 then Some (of_nat (n - 48))
      else if 97 \<le> n \<and> n \<le> 102 then Some (of_nat (n - 97 + 10))
      else if 65 \<le> n \<and> n \<le> 70 then Some (of_nat (n - 65 + 10))
      else None)"

fun hex_Decode :: "string \<Rightarrow> byte list \<Rightarrow> byte list \<times> hex_error option" where
  "hex_Decode [] dst = (dst, None)"
| "hex_Decode [p] dst =
     (case fromHexChar p of
        None \<Rightarrow> (dst, Some (InvalidByteError p))
      | Some a \<Rightarrow> (dst, Some ErrLength))"
| "hex_Decode (p # q # src) dst =
     (case fromHexChar p of
        None \<Rightarrow> (dst, Some (InvalidByteError p))
      | Some a \<Rightarrow>
          (case fromHexChar q of
             None \<Rightarrow> (dst, Some (InvalidByteError q))
           | Some b \<Rightarrow> hex_Decode src (dst @ [or (push_bit 4 a) b])))"

definition hex_DecodeString :: "string \<Rightarrow> byte list \<times> hex_error option" where
  "hex_DecodeString s = hex_Decode s []"

text \<open>
  The fields of a \<^verbatim>\<open>gjson.Result\<close> that the methods read: the type of the JSON value,
  its text, and the decoded string of a string value. \<^verbatim>\<open>IsObject\<close> is gjson's: a value of
  type \<^verbatim>\<open>JSON\<close> whose text starts with an opening brace. In the envelope \<^verbatim>\<open>Count\<close> is a
  \<^verbatim>\<open>*int64\<close> that is only copied.
\<close>

datatype gjson_Type =
  gjson_Null | gjson_False | gjson_Number | gjson_String | gjson_True | gjson_JSON

record gjson_Result =
  Type :: gjson_Type
  Raw :: string
  Str :: string

definition IsObject :: "gjson_Result \<Rightarrow> bool" where
  "IsObject r = (Type r = gjson_JSON \<and> length (Raw r) > 0 \<and> Raw r ! 0 = CHR ''{'')"

record CountEnvelope =
  SubscriptionID :: string
  Filters :: "Filter list option"
  Count :: "int option"
  HyperLogLog :: "byte list option"

datatype 'e count_error =
  MissingFilters | InvalidHLL hex_error | OnFilter 'e nat | FiltersIndexOutOfRange

definition zero_Filter :: Filter where
  "zero_Filter = \<lparr>IDs = None, Kinds = None, Authors = None, Tags = None, Since = None,
     Until = None, Limit = 0, Search = [], LimitZero = False\<rparr>"

text \<open>
  The loop \<^verbatim>\<open>for i := 2; i < len(arr); i++\<close> that decodes the filters: \<open>items\<close> are the
  elements of \<open>arr\<close> still to be decoded, \<open>f\<close> the index of the next filter and \<open>fs\<close> the
  slice \<^verbatim>\<open>v.Filters\<close>. The slice is made with one element for each item, so that
  \<^verbatim>\<open>v.Filters[f]\<close> is in range; out of range it would panic.
\<close>

fun filters_loop ::
  "(string \<Rightarrow> Filter \<Rightarrow> Filter \<times> 'e option) \<Rightarrow> gjson_Result list \<Rightarrow> nat \<Rightarrow> Filter list
     \<Rightarrow> Filter list \<times> 'e count_error option" where
  "filters_loop easyjson_Unmarshal [] f fs = (fs, None)"
| "filters_loop easyjson_Unmarshal (item # items) f fs =
     (if f < length fs then
        (case easyjson_Unmarshal (Raw item) (fs ! f) of
           (x, Some err) \<Rightarrow> (fs[f := x], Some (OnFilter err f))
         | (x, None) \<Rightarrow> filters_loop easyjson_Unmarshal items (Suc f) (fs[f := x]))
      else (fs, Some FiltersIndexOutOfRange))"

text \<open>
  \<^verbatim>\<open>CountEnvelope.UnmarshalJSON\<close>. The decoders of the libraries are parameters:
  \<open>gjson_Array data\<close> is \<^verbatim>\<open>gjson.ParseBytes(data).Array()\<close>; \<open>json_Unmarshal raw\<close> is the
  content of \<^verbatim>\<open>countResult\<close> (its \<^verbatim>\<open>Count\<close> and its \<^verbatim>\<open>HLL\<close>) after \<^verbatim>\<open>json.Unmarshal\<close>,
  with the error; \<open>easyjson_Unmarshal raw x\<close> is the filter \<open>x\<close> after
  \<^verbatim>\<open>easyjson.Unmarshal\<close>, with the error. The result is the receiver after the call and
  the error returned.
\<close>

definition CountEnvelope_UnmarshalJSON ::
  "(string \<Rightarrow> gjson_Result list) \<Rightarrow> (string \<Rightarrow> (int option \<times> string) \<times> 'e option)
     \<Rightarrow> (string \<Rightarrow> Filter \<Rightarrow> Filter \<times> 'e option)
     \<Rightarrow> CountEnvelope \<Rightarrow> string \<Rightarrow> CountEnvelope \<times> 'e count_error option" where
  "CountEnvelope_UnmarshalJSON gjson_Array json_Unmarshal easyjson_Unmarshal v data =
     (let arr = gjson_Array data in
      if length arr < 3 then (v, Some MissingFilters)
      else
        let v1 = v\<lparr>SubscriptionID := Str (arr ! 1)\<rparr> in
        (case json_Unmarshal (Raw (arr ! 2)) of
           ((Some n, hll), None) \<Rightarrow>
             (let v2 = v1\<lparr>Count := Some n\<rparr> in
              if length hll = 512 then
                (case hex_DecodeString hll of
                   (bs, Some err) \<Rightarrow> (v2\<lparr>HyperLogLog := Some bs\<rparr>, Some (InvalidHLL err))
                 | (bs, None) \<Rightarrow> (v2\<lparr>HyperLogLog := Some bs\<rparr>, None))
              else (v2, None))
         | _ \<Rightarrow>
             (case filters_loop easyjson_Unmarshal (drop 2 arr) 0
                     (replicate (length arr - 2) zero_Filter) of
                (fs, err) \<Rightarrow> (v1\<lparr>Filters := Some fs\<rparr>, err))))"

section \<open>src/unnamed/part_003: the envelopes and their codecs\<close>

text \<open>
  The envelopes as one type. \<^verbatim>\<open>SubscriptionID *string\<close> and \<^verbatim>\<open>Challenge *string\<close> are
  options, the slices \<^verbatim>\<open>Events\<close> and \<^verbatim>\<open>Filters\<close> are lists that may be nil; an element of
  \<^verbatim>\<open>Events\<close>, a \<^verbatim>\<open>*Event\<close>, is read as the event it points to.
\<close>

datatype envelope =
    EventEnvelope "string option" "Event list option"
  | ReqEnvelope string "Filter list option"
  | Count_Envelope CountEnvelope
  | NoticeEnvelope string
  | EOSEEnvelope string
  | CloseEnvelope string
  | ClosedEnvelope string string
  | OKEnvelope string bool string
  | AuthEnvelope "string option" Event

definition zero_Event :: Event where
  "zero_Event = \<lparr>ID = [], PubKey = [], CreatedAt = 0, Kind = 0, Tags = [], Content = [], Sig = []\<rparr>"

definition zero_CountEnvelope :: CountEnvelope where
  "zero_CountEnvelope = \<lparr>SubscriptionID = [], Filters = None, Count = None, HyperLogLog = None\<rparr>"

text \<open>
  The libraries and the generated codecs that the methods call, outside the given
  sources, as a record of functions: \<^verbatim>\<open>gjson.ParseBytes(data).Array()\<close>; \<^verbatim>\<open>json.Marshal\<close> of
  a string; \<^verbatim>\<open>json.Unmarshal\<close> into \<^verbatim>\<open>countResult\<close>; \<^verbatim>\<open>easyjson.Unmarshal\<close> into an event
  and into a filter (the receiver after the call, and the error); \<^verbatim>\<open>MarshalEasyJSON\<close> of
  an event and of a filter; \<^verbatim>\<open>strconv.FormatInt(n, 10)\<close>.
\<close>

record 'e libs =
  gjson_Array :: "string \<Rightarrow> gjson_Result list"
  json_Marshal :: "string \<Rightarrow> string"
  json_Unmarshal_countResult :: "string \<Rightarrow> (int option \<times> string) \<times> 'e option"
  easyjson_Unmarshal_Event :: "string \<Rightarrow> Event \<Rightarrow> Event \<times> 'e option"
  easyjson_Unmarshal_Filter :: "string \<Rightarrow> Filter \<Rightarrow> Filter \<times> 'e option"
  MarshalEasyJSON_Event :: "Event \<Rightarrow> string"
  MarshalEasyJSON_Filter :: "Filter \<Rightarrow> string"
  FormatInt :: "int \<Rightarrow> string"

subsection \<open>MarshalJSON\<close>

text \<open>
  \<^verbatim>\<open>hex.Encode(dst, src)\<close> of Go's standard library, for a \<open>dst\<close> of \<open>n\<close> zero bytes: two
  characters of \<^verbatim>\<open>0123456789abcdef\<close> for each byte; a \<open>src\<close> of more than \<open>n / 2\<close> bytes
  indexes \<open>dst\<close> out of range, a shorter one leaves zero bytes at the end.
\<close>

definition hextable :: "byte \<Rightarrow> char" where
  "hextable x = ''0123456789abcdef'' ! unat x"

definition hex_chars :: "byte list \<Rightarrow> string" where
  "hex_chars src = concat (map (\<lambda>v. [hextable (drop_bit 4 v), hextable (and v 15)]) src)"

definition hex_Encode :: "nat \<Rightarrow> byte list \<Rightarrow> error + string" where
  "hex_Encode n src =
     (if 2 * length src > n then Inl IndexOutOfRange
      else Inr (hex_chars src @ replicate (n - 2 * length src) (char_of (0 :: nat))))"

text \<open>
  The loop of \<^verbatim>\<open>EventEnvelope.MarshalJSON\<close> writes a comma after every event but the
  last; the loops of \<^verbatim>\<open>ReqEnvelope\<close> and \<^verbatim>\<open>CountEnvelope\<close> write one before every filter.
\<close>

fun events_loop :: "(Event \<Rightarrow> string) \<Rightarrow> Event list \<Rightarrow> string" where
  "events_loop m [] = []"
| "events_loop m [ev] = m ev"
| "events_loop m (ev # evs) = m ev @ '','' @ events_loop m evs"

fun filters_out_loop :: "(Filter \<Rightarrow> string) \<Rightarrow> Filter list \<Rightarrow> string" where
  "filters_out_loop m [] = []"
| "filters_out_loop m (f # fs) = '','' @ m f @ filters_out_loop m fs"

definition quoted :: "string \<Rightarrow> string" where
  "quoted s = [CHR 0x22] @ s @ [CHR 0x22]"

text \<open>
  \<^verbatim>\<open>MarshalJSON\<close> of each envelope type. The writer appends the raw strings one after the
  other; the only failure is the panic of \<^verbatim>\<open>hex.Encode\<close>.
\<close>

fun MarshalJSON :: "'e libs \<Rightarrow> envelope \<Rightarrow> error + string" where
  "MarshalJSON L (EventEnvelope sub events) =
     Inr ([CHR 0x5B] @ quoted ''EVENT'' @ '',''
          @ (case sub of
               None \<Rightarrow> []
             | Some s \<Rightarrow> quoted s @ (if len events > 0 then '','' else []))
          @ events_loop (MarshalEasyJSON_Event L) (elems events)
          @ '']'')"
| "MarshalJSON L (ReqEnvelope sub filters) =
     Inr ([CHR 0x5B] @ quoted ''REQ'' @ '','' @ quoted sub
          @ filters_out_loop (MarshalEasyJSON_Filter L) (elems filters)
          @ '']'')"
| "MarshalJSON L (Count_Envelope v) =
     (case Count v of
        Some n \<Rightarrow>
          (case HyperLogLog v of
             None \<Rightarrow>
               Inr ([CHR 0x5B] @ quoted ''COUNT'' @ '','' @ quoted (SubscriptionID v)
                    @ '',{'' @ quoted ''count'' @ '':'' @ FormatInt L n @ ''}'' @ '']'')
           | Some hll \<Rightarrow>
               (case hex_Encode 512 hll of
                  Inl e \<Rightarrow> Inl e
                | Inr hllHex \<Rightarrow>
                    Inr ([CHR 0x5B] @ quoted ''COUNT'' @ '','' @ quoted (SubscriptionID v)
                         @ '',{'' @ quoted ''count'' @ '':'' @ FormatInt L n
                         @ '','' @ quoted ''hll'' @ '':'' @ quoted hllHex @ ''}'' @ '']'')))
      | None \<Rightarrow>
          Inr ([CHR 0x5B] @ quoted ''COUNT'' @ '','' @ quoted (SubscriptionID v)
               @ filters_out_loop (MarshalEasyJSON_Filter L) (elems (Filters v))
               @ '']''))"
| "MarshalJSON L (NoticeEnvelope s) =
     Inr ([CHR 0x5B] @ quoted ''NOTICE'' @ '','' @ json_Marshal L s @ '']'')"
| "MarshalJSON L (EOSEEnvelope s) =
     Inr ([CHR 0x5B] @ quoted ''EOSE'' @ '','' @ json_Marshal L s @ '']'')"
| "MarshalJSON L (CloseEnvelope s) =
     Inr ([CHR 0x5B] @ quoted ''CLOSE'' @ '','' @ json_Marshal L s @ '']'')"
| "MarshalJSON L (ClosedEnvelope sub reason) =
     Inr ([CHR 0x5B] @ quoted ''CLOSED'' @ '','' @ json_Marshal L sub @ '',''
          @ json_Marshal L reason @ '']'')"
| "MarshalJSON L (OKEnvelope eventID ok reason) =
     Inr ([CHR 0x5B] @ quoted ''OK'' @ '','' @ quoted eventID @ '',''
          @ (if ok then ''true'' else ''false'') @ '','' @ json_Marshal L reason @ '']'')"
| "MarshalJSON L (AuthEnvelope challenge event) =
     Inr ([CHR 0x5B] @ quoted ''AUTH'' @ '',''
          @ (case challenge of
               Some c \<Rightarrow> json_Marshal L c
             | None \<Rightarrow> MarshalEasyJSON_Event L event)
          @ '']'')"

subsection \<open>UnmarshalJSON\<close>

datatype 'e envelope_error =
    UnknownArrayLen nat
  | EventDecode 'e
  | OnEvent 'e nat
  | CountError "'e count_error"
  | DecodeFailed envelope_type

text \<open>
  The loop of \<^verbatim>\<open>EventEnvelope.UnmarshalJSON\<close> over \<^verbatim>\<open>jsonEvents\<close>: each element is decoded
  into a new event, which is appended to \<^verbatim>\<open>v.Events\<close>.
\<close>

fun events_in_loop ::
  "(string \<Rightarrow> Event \<Rightarrow> Event \<times> 'e option) \<Rightarrow> gjson_Result list \<Rightarrow> nat \<Rightarrow> Event list
     \<Rightarrow> Event list \<times> 'e envelope_error option" where
  "events_in_loop easyjson_Unmarshal [] i events = (events, None)"
| "events_in_loop easyjson_Unmarshal (j # js) i events =
     (case easyjson_Unmarshal (Raw j) zero_Event of
        (ev, Some err) \<Rightarrow> (events, Some (OnEvent err i))
      | (ev, None) \<Rightarrow> events_in_loop easyjson_Unmarshal js (Suc i) (events @ [ev]))"

definition EventEnvelope_UnmarshalJSON ::
  "'e libs \<Rightarrow> string option \<times> Event list option \<Rightarrow> string
     \<Rightarrow> (string option \<times> Event list option) \<times> 'e envelope_error option" where
  "EventEnvelope_UnmarshalJSON L v data =
     (let arr = gjson_Array L data in
      if length arr = 0 \<or> length arr = 1 then (v, Some (UnknownArrayLen (length arr)))
      else if length arr = 2 then
        (case easyjson_Unmarshal_Event L (Raw (arr ! 1)) zero_Event of
           (ev, None) \<Rightarrow> ((fst v, Some [ev]), None)
         | (ev, Some err) \<Rightarrow> (v, Some (EventDecode err)))
      else
        let jsonEvents = drop 1 arr;
            (sub, jsonEvents') =
              (if Type (jsonEvents ! 0) = gjson_String
                 then (Some (Str (jsonEvents ! 0)), drop 1 jsonEvents)
               else if Type (jsonEvents ! 0) = gjson_Null
                 then (None, drop 1 jsonEvents)
               else (fst v, jsonEvents))
        in (case events_in_loop (easyjson_Unmarshal_Event L) jsonEvents' 0 [] of
              (events, err) \<Rightarrow> ((sub, Some events), err)))"

definition ReqEnvelope_UnmarshalJSON ::
  "'e libs \<Rightarrow> string \<times> Filter list option \<Rightarrow> string
     \<Rightarrow> (string \<times> Filter list option) \<times> 'e envelope_error option" where
  "ReqEnvelope_UnmarshalJSON L v data =
     (let arr = gjson_Array L data in
      if length arr < 3 then (v, Some (CountError MissingFilters))
      else
        (case filters_loop (easyjson_Unmarshal_Filter L) (drop 2 arr) 0
                (replicate (length arr - 2) zero_Filter) of
           (fs, err) \<Rightarrow> ((Str (arr ! 1), Some fs), map_option CountError err)))"

text \<open>
  The methods of the envelopes that hold one or two strings, of \<^verbatim>\<open>OKEnvelope\<close> and of
  \<^verbatim>\<open>AuthEnvelope\<close>, with the envelope that \<^verbatim>\<open>ParseMessage\<close> creates as the receiver: for an
  envelope type and a message, the receiver after the call and the error.
\<close>

definition UnmarshalJSON :: "'e libs \<Rightarrow> envelope_type \<Rightarrow> string \<Rightarrow> envelope \<times> 'e envelope_error option" where
  "UnmarshalJSON L t data =
     (let arr = gjson_Array L data in
      case t of
        EVENT \<Rightarrow>
          (case EventEnvelope_UnmarshalJSON L (None, None) data of
             ((sub, events), err) \<Rightarrow> (EventEnvelope sub events, err))
      | REQ \<Rightarrow>
          (case ReqEnvelope_UnmarshalJSON L ([], None) data of
             ((sub, filters), err) \<Rightarrow> (ReqEnvelope sub filters, err))
      | COUNT \<Rightarrow>
          (case CountEnvelope_UnmarshalJSON (gjson_Array L) (json_Unmarshal_countResult L)
                  (easyjson_Unmarshal_Filter L) zero_CountEnvelope data of
             (v, err) \<Rightarrow> (Count_Envelope v, map_option CountError err))
      | NOTICE \<Rightarrow>
          if length arr < 2 then (NoticeEnvelope [], Some (DecodeFailed NOTICE))
          else (NoticeEnvelope (Str (arr ! 1)), None)
      | EOSE \<Rightarrow>
          if length arr < 2 then (EOSEEnvelope [], Some (DecodeFailed EOSE))
          else (EOSEEnvelope (Str (arr ! 1)), None)
      | CLOSE \<Rightarrow>
          if length arr = 2 then (CloseEnvelope (Str (arr ! 1)), None)
          else (CloseEnvelope [], Some (DecodeFailed CLOSE))
      | CLOSED \<Rightarrow>
          if length arr = 3 then (ClosedEnvelope (Str (arr ! 1)) (Str (arr ! 2)), None)
          else (ClosedEnvelope [] [], Some (DecodeFailed CLOSED))
      | OK \<Rightarrow>
          if length arr < 4 then (OKEnvelope [] False [], Some (DecodeFailed OK))
          else (OKEnvelope (Str (arr ! 1)) (Raw (arr ! 2) = ''true'') (Str (arr ! 3)), None)
      | AUTH \<Rightarrow>
          if length arr < 2 then (AuthEnvelope None zero_Event, Some (DecodeFailed AUTH))
          else if IsObject (arr ! 1) then
            (case easyjson_Unmarshal_Event L (Raw (arr ! 1)) zero_Event of
               (ev, err) \<Rightarrow> (AuthEnvelope None ev, map_option EventDecode err))
          else (AuthEnvelope (Some (Str (arr ! 1))) zero_Event, None))"

section \<open>src/filter.go: Clone on a store\<close>

text \<open>
  Whether a write through the clone reaches the original depends on which arrays, maps
  and variables the two filters share, so here the filter is the Go struct itself: slice
  headers, a map reference and pointers into a store. An address is an index of the
  store, and an allocation appends to it. A slice header is nil, or an array with an
  offset, a length and a capacity. A map object holds its entries as a list, in the order
  in which a range visits them.
\<close>

type_synonym addr = nat

datatype slice = NilSlice | Slice addr nat nat nat

datatype obj =
    StringArray "string list"
  | IntArray "int list"
  | PointerArray "addr option list"
  | SliceArray "slice list"
  | StringVar string
  | TimestampVar int
  | MapObject "(string \<times> slice) list"

type_synonym store = "obj list"

record Filter_struct =
  sIDs :: slice
  sKinds :: slice
  sAuthors :: slice
  sTags :: "addr option"
  sSince :: "addr option"
  sUntil :: "addr option"
  sLimit :: int
  sSearch :: string
  sLimitZero :: bool

definition load :: "store \<Rightarrow> addr \<Rightarrow> obj option" where
  "load h a = (if a < length h then Some (h ! a) else None)"

definition new :: "store \<Rightarrow> obj \<Rightarrow> store \<times> addr" where
  "new h x = (h @ [x], length h)"

text \<open>The elements \<open>off, \<dots>, off + n - 1\<close> of an array, as a new array.\<close>

fun window :: "obj \<Rightarrow> nat \<Rightarrow> nat \<Rightarrow> obj" where
  "window (StringArray xs) off n = StringArray (take n (drop off xs))"
| "window (IntArray xs) off n = IntArray (take n (drop off xs))"
| "window (PointerArray xs) off n = PointerArray (take n (drop off xs))"
| "window (SliceArray xs) off n = SliceArray (take n (drop off xs))"
| "window x off n = x"

text \<open>
  \<^verbatim>\<open>slices.Clone(s)\<close>, that is \<^verbatim>\<open>append(s[:0:0], s...)\<close>: nil for nil; for an empty slice the
  slice \<^verbatim>\<open>s[:0:0]\<close> itself, of capacity 0; otherwise a new array that holds the elements
  of \<open>s\<close>, copied by assignment. The runtime may give the new array more capacity than
  its length; the model gives it the length.
\<close>

definition slices_Clone_store :: "store \<Rightarrow> slice \<Rightarrow> (store \<times> slice) option" where
  "slices_Clone_store h s =
     (case s of
        NilSlice \<Rightarrow> Some (h, NilSlice)
      | Slice a off n c \<Rightarrow>
          if n = 0 then Some (h, Slice a off 0 0)
          else (case load h a of
                  None \<Rightarrow> None
                | Some arr \<Rightarrow>
                    (case new h (window arr off n) of
                       (h', a') \<Rightarrow> Some (h', Slice a' 0 n n))))"

text \<open>\<^verbatim>\<open>m[k] = v\<close> on the map object at address \<open>m\<close>.\<close>

definition map_assign :: "store \<Rightarrow> addr \<Rightarrow> string \<Rightarrow> slice \<Rightarrow> store option" where
  "map_assign h m k v =
     (case load h m of
        Some (MapObject entries) \<Rightarrow> Some (h[m := MapObject (AList.update k v entries)])
      | _ \<Rightarrow> None)"

text \<open>The loop \<^verbatim>\<open>for k, v := range ef.Tags { clone.Tags[k] = slices.Clone(v) }\<close>.\<close>

fun clone_entries :: "store \<Rightarrow> addr \<Rightarrow> (string \<times> slice) list \<Rightarrow> store option" where
  "clone_entries h m [] = Some h"
| "clone_entries h m ((k, v) # entries) =
     (case slices_Clone_store h v of
        None \<Rightarrow> None
      | Some (h1, v') \<Rightarrow>
          (case map_assign h1 m k v' of
             None \<Rightarrow> None
           | Some h2 \<Rightarrow> clone_entries h2 m entries))"

definition clone_Tags :: "store \<Rightarrow> addr option \<Rightarrow> (store \<times> addr option) option" where
  "clone_Tags h tags =
     (case tags of
        None \<Rightarrow> Some (h, None)
      | Some m \<Rightarrow>
          (case load h m of
             Some (MapObject entries) \<Rightarrow>
               (case new h (MapObject []) of
                  (h1, m') \<Rightarrow>
                    (case clone_entries h1 m' entries of
                       None \<Rightarrow> None
                     | Some h2 \<Rightarrow> Some (h2, Some m')))
           | _ \<Rightarrow> None))"

text \<open>\<^verbatim>\<open>if p != nil { x := *p; q = &x }\<close>: a new variable with the value of \<open>*p\<close>.\<close>

definition clone_Timestamp :: "store \<Rightarrow> addr option \<Rightarrow> (store \<times> addr option) option" where
  "clone_Timestamp h p =
     (case p of
        None \<Rightarrow> Some (h, None)
      | Some a \<Rightarrow>
          (case load h a of
             Some (TimestampVar t) \<Rightarrow>
               (case new h (TimestampVar t) of (h1, a') \<Rightarrow> Some (h1, Some a'))
           | _ \<Rightarrow> None))"

text \<open>
  \<^verbatim>\<open>Filter.Clone\<close>. The result is \<open>None\<close> only on a store that does not hold, at the
  addresses the filter refers to, objects of the types the filter's fields have; Go's type
  system excludes such stores.
\<close>

definition Clone_store :: "store \<Rightarrow> Filter_struct \<Rightarrow> (store \<times> Filter_struct) option" where
  "Clone_store h ef =
     (case slices_Clone_store h (sIDs ef) of None \<Rightarrow> None | Some (h1, ids) \<Rightarrow>
      (case slices_Clone_store h1 (sAuthors ef) of None \<Rightarrow> None | Some (h2, authors) \<Rightarrow>
       (case slices_Clone_store h2 (sKinds ef) of None \<Rightarrow> None | Some (h3, kinds) \<Rightarrow>
        (case clone_Tags h3 (sTags ef) of None \<Rightarrow> None | Some (h4, tags) \<Rightarrow>
         (case clone_Timestamp h4 (sSince ef) of None \<Rightarrow> None | Some (h5, since) \<Rightarrow>
          (case clone_Timestamp h5 (sUntil ef) of None \<Rightarrow> None | Some (h6, until) \<Rightarrow>
             Some (h6, \<lparr>sIDs = ids, sKinds = kinds, sAuthors = authors, sTags = tags,
                        sSince = since, sUntil = until, sLimit = sLimit ef,
                        sSearch = sSearch ef, sLimitZero = sLimitZero ef\<rparr>)))))))"

subsection \<open>Reading a filter from the store\<close>

text \<open>
  What an observer of a filter sees: the values of its slices, maps and pointers, as a
  \<open>Filter\<close> of the value model. Again \<open>None\<close> stands for a store of the wrong shape.
\<close>

definition read_slice :: "store \<Rightarrow> slice \<Rightarrow> obj option option" where
  "read_slice h s =
     (case s of
        NilSlice \<Rightarrow> Some None
      | Slice a off n c \<Rightarrow>
          (case load h a of None \<Rightarrow> None | Some arr \<Rightarrow> Some (Some (window arr off n))))"

definition read_strings :: "store \<Rightarrow> slice \<Rightarrow> string list option option" where
  "read_strings h s =
     (case read_slice h s of
        None \<Rightarrow> None
      | Some None \<Rightarrow> Some None
      | Some (Some (StringArray xs)) \<Rightarrow> Some (Some xs)
      | Some (Some _) \<Rightarrow> None)"

definition read_ints :: "store \<Rightarrow> slice \<Rightarrow> int list option option" where
  "read_ints h s =
     (case read_slice h s of
        None \<Rightarrow> None
      | Some None \<Rightarrow> Some None
      | Some (Some (IntArray xs)) \<Rightarrow> Some (Some xs)
      | Some (Some _) \<Rightarrow> None)"

definition read_pointer :: "store \<Rightarrow> addr option \<Rightarrow> string option option" where
  "read_pointer h p =
     (case p of
        None \<Rightarrow> Some None
      | Some a \<Rightarrow> (case load h a of Some (StringVar x) \<Rightarrow> Some (Some x) | _ \<Rightarrow> None))"

definition read_TagValues :: "store \<Rightarrow> slice \<Rightarrow> TagValues option" where
  "read_TagValues h s =
     (case read_slice h s of
        None \<Rightarrow> None
      | Some None \<Rightarrow> Some []
      | Some (Some (PointerArray ps)) \<Rightarrow> those (map (read_pointer h) ps)
      | Some (Some _) \<Rightarrow> None)"

definition read_sets :: "store \<Rightarrow> slice \<Rightarrow> TagValues list option" where
  "read_sets h s =
     (case read_slice h s of
        None \<Rightarrow> None
      | Some None \<Rightarrow> Some []
      | Some (Some (SliceArray ss)) \<Rightarrow> those (map (read_TagValues h) ss)
      | Some (Some _) \<Rightarrow> None)"

definition read_entry :: "store \<Rightarrow> string \<times> slice \<Rightarrow> (string \<times> TagValues list) option" where
  "read_entry h = (\<lambda>(k, v). map_option (Pair k) (read_sets h v))"

definition read_TagMap :: "store \<Rightarrow> addr option \<Rightarrow> TagMap option option" where
  "read_TagMap h tags =
     (case tags of
        None \<Rightarrow> Some None
      | Some m \<Rightarrow>
          (case load h m of
             Some (MapObject entries) \<Rightarrow>
               (case those (map (read_entry h) entries) of
                  None \<Rightarrow> None
                | Some kvs \<Rightarrow> Some (Some (fmap_of_list kvs)))
           | _ \<Rightarrow> None))"

definition read_Timestamp :: "store \<Rightarrow> addr option \<Rightarrow> Timestamp option option" where
  "read_Timestamp h p =
     (case p of
        None \<Rightarrow> Some None
      | Some a \<Rightarrow> (case load h a of Some (TimestampVar t) \<Rightarrow> Some (Some t) | _ \<Rightarrow> None))"

definition read_Filter :: "store \<Rightarrow> Filter_struct \<Rightarrow> Filter option" where
  "read_Filter h ef =
     (case read_strings h (sIDs ef) of None \<Rightarrow> None | Some ids \<Rightarrow>
      (case read_ints h (sKinds ef) of None \<Rightarrow> None | Some kinds \<Rightarrow>
       (case read_strings h (sAuthors ef) of None \<Rightarrow> None | Some authors \<Rightarrow>
        (case read_TagMap h (sTags ef) of None \<Rightarrow> None | Some tags \<Rightarrow>
         (case read_Timestamp h (sSince ef) of None \<Rightarrow> None | Some since \<Rightarrow>
          (case read_Timestamp h (sUntil ef) of None \<Rightarrow> None | Some until \<Rightarrow>
             Some \<lparr>IDs = ids, Kinds = kinds, Authors = authors, Tags = tags,
                   Since = since, Until = until, Limit = sLimit ef,
                   Search = sSearch ef, LimitZero = sLimitZero ef\<rparr>))))))"

subsection \<open>Writes through a filter\<close>

text \<open>
  The element \<^verbatim>\<open>ef.Tags[k][i]\<close>, a slice header, and the assignments
  \<^verbatim>\<open>ef.Tags[k][i][j] = p\<close>, \<^verbatim>\<open>*ef.Tags[k][i][j] = x\<close>, \<^verbatim>\<open>ef.IDs[i] = x\<close> and
  \<^verbatim>\<open>*ef.Since = t\<close>. An index out of range, a key that is absent, and a nil map or
  pointer give \<open>None\<close>.
\<close>

definition Tags_index :: "store \<Rightarrow> Filter_struct \<Rightarrow> string \<Rightarrow> nat \<Rightarrow> slice option" where
  "Tags_index h ef k i =
     (case sTags ef of
        None \<Rightarrow> None
      | Some m \<Rightarrow>
          (case load h m of
             Some (MapObject entries) \<Rightarrow>
               (case map_of entries k of
                  Some (Slice a off n c) \<Rightarrow>
                    (case load h a of
                       Some (SliceArray ss) \<Rightarrow> if i < n then Some (ss ! (off + i)) else None
                     | _ \<Rightarrow> None)
                | _ \<Rightarrow> None)
           | _ \<Rightarrow> None))"

definition assign_tag_value ::
  "store \<Rightarrow> Filter_struct \<Rightarrow> string \<Rightarrow> nat \<Rightarrow> nat \<Rightarrow> addr option \<Rightarrow> store option" where
  "assign_tag_value h ef k i j p =
     (case Tags_index h ef k i of
        Some (Slice a off n c) \<Rightarrow>
          (case load h a of
             Some (PointerArray ps) \<Rightarrow>
               if j < n then Some (h[a := PointerArray (ps[off + j := p])]) else None
           | _ \<Rightarrow> None)
      | _ \<Rightarrow> None)"

definition assign_through_tag_value ::
  "store \<Rightarrow> Filter_struct \<Rightarrow> string \<Rightarrow> nat \<Rightarrow> nat \<Rightarrow> string \<Rightarrow> store option" where
  "assign_through_tag_value h ef k i j x =
     (case Tags_index h ef k i of
        Some (Slice a off n c) \<Rightarrow>
          (case load h a of
             Some (PointerArray ps) \<Rightarrow>
               if j < n then
                 (case ps ! (off + j) of
                    None \<Rightarrow> None
                  | Some q \<Rightarrow> Some (h[q := StringVar x]))
               else None
           | _ \<Rightarrow> None)
      | _ \<Rightarrow> None)"

definition assign_ID :: "store \<Rightarrow> Filter_struct \<Rightarrow> nat \<Rightarrow> string \<Rightarrow> store option" where
  "assign_ID h ef i x =
     (case sIDs ef of
        Slice a off n c \<Rightarrow>
          (case load h a of
             Some (StringArray xs) \<Rightarrow>
               if i < n then Some (h[a := StringArray (xs[off + i := x])]) else None
           | _ \<Rightarrow> None)
      | NilSlice \<Rightarrow> None)"

definition assign_through_Since :: "store \<Rightarrow> Filter_struct \<Rightarrow> Timestamp \<Rightarrow> store option" where
  "assign_through_Since h ef t =
     (case sSince ef of
        None \<Rightarrow> None
      | Some a \<Rightarrow> Some (h[a := TimestampVar t]))"

subsection \<open>Stores that agree\<close>

text \<open>
  \<open>agree_except m h h'\<close>: the store \<open>h'\<close> holds every object of \<open>h\<close> at its address,
  but for the one at \<open>m\<close>. \<open>not_array h m\<close>: the address \<open>m\<close> is not allocated in \<open>h\<close>, or
  holds a map object. \<open>keeps h h'\<close>: \<open>h'\<close> holds every object of \<open>h\<close>. \<open>distinct_keys\<close>:
  the map object of a filter lists every key once, as a Go map does.
\<close>

definition agree_except :: "addr \<Rightarrow> store \<Rightarrow> store \<Rightarrow> bool" where
  "agree_except m h h' = (length h \<le> length h' \<and> (\<forall>a<length h. a \<noteq> m \<longrightarrow> h' ! a = h ! a))"

definition not_array :: "store \<Rightarrow> addr \<Rightarrow> bool" where
  "not_array h m = (m < length h \<longrightarrow> (\<exists>es. h ! m = MapObject es))"

definition distinct_keys :: "store \<Rightarrow> Filter_struct \<Rightarrow> bool" where
  "distinct_keys h ef =
     (case sTags ef of
        None \<Rightarrow> True
      | Some m \<Rightarrow>
          (case load h m of
             Some (MapObject entries) \<Rightarrow> distinct (map fst entries)
           | _ \<Rightarrow> True))"

definition keeps :: "store \<Rightarrow> store \<Rightarrow> bool" where
  "keeps h h' = (\<exists>m\<ge>length h. agree_except m h h')"

section \<open>A store with one filter\<close>

text \<open>
  The filter \<^verbatim>\<open>Filter{IDs: []string{"abc"}, Kinds: []int{1}, Tags: TagMap{"e": {{&one}}},
  Since: &since}\<close> with \<^verbatim>\<open>one := "1"\<close> and \<^verbatim>\<open>since := Timestamp(100)\<close>, laid out in a store:
  one array for each slice, a variable for each pointer, and the map object.
\<close>

definition example_store :: store where
  "example_store =
     [StringArray [''abc''], IntArray [1], StringVar ''1'', PointerArray [Some 2],
      SliceArray [Slice 3 0 1 1], MapObject [(''e'', Slice 4 0 1 1)], TimestampVar 100]"

definition example_filter :: Filter_struct where
  "example_filter =
     \<lparr>sIDs = Slice 0 0 1 1, sKinds = Slice 1 0 1 1, sAuthors = NilSlice, sTags = Some 5,
      sSince = Some 6, sUntil = None, sLimit = 0, sSearch = [], sLimitZero = False\<rparr>"

text \<open>What a reader of the filter \<open>ef\<close> sees under the tag key \<open>k\<close>.\<close>

definition read_key :: "store \<Rightarrow> Filter_struct \<Rightarrow> string \<Rightarrow> TagValues list option" where
  "read_key h ef k = map_option (\<lambda>x. index_map (Filter.Tags x) k) (read_Filter h ef)"

section \<open>The tag predicate in the words of the specification\<close>

text \<open>
  A set matches a tag iff for every position \<open>i\<close> with a non-nil expected value \<open>v\<close>,
  \<open>tag[i+1]\<close> exists and equals \<open>v\<close>.
\<close>

definition spec_set_matches_tag :: "TagValues \<Rightarrow> Tag \<Rightarrow> bool" where
  "spec_set_matches_tag s t =
     (\<forall>i<length s. \<forall>v. s ! i = Some v \<longrightarrow> Suc i < length t \<and> t ! Suc i = v)"

text \<open>
  For each key of the filter's tag map the event must contain at least one tag with this
  key that matches at least one of the key's sets; an empty list of sets is matched by
  any tag with the key.
\<close>

definition spec_tags_predicate :: "TagMap \<Rightarrow> Tag list \<Rightarrow> bool" where
  "spec_tags_predicate m tags =
     (\<forall>k\<in>fmdom' m. \<exists>t\<in>set tags. Key t = k \<and>
        (the (fmlookup m k) = [] \<or> (\<exists>s\<in>set (the (fmlookup m k)). spec_set_matches_tag s t)))"

section \<open>What the loop of src/filter.go computes\<close>

text \<open>
  The loop decides every wanted key at the first tag of the event that carries it:
  \<open>first_tag\<close> is that tag, and the key is accepted when its list of sets is empty or
  one of the sets matches the values of that tag.
\<close>

definition first_tag :: "string \<Rightarrow> Tag list \<Rightarrow> Tag option" where
  "first_tag k tags = find (\<lambda>t. Key t = k) tags"

definition first_tag_accepts :: "TagValues list \<Rightarrow> Tag \<Rightarrow> bool" where
  "first_tag_accepts sets t = (sets = [] \<or> (\<exists>s\<in>set sets. matchesTagSet (tl t) s))"

definition key_accepted :: "TagMap \<Rightarrow> Tag list \<Rightarrow> string \<Rightarrow> bool" where
  "key_accepted want tags k =
     (case first_tag k tags of None \<Rightarrow> False
      | Some t \<Rightarrow> first_tag_accepts (the (fmlookup want k)) t)"

text \<open>
  The loop of src/unnamed/part_002 also decides every key at the first tag that carries
  it, and accepts the key when every set matches the values of that tag.
\<close>

definition key_accepted_by_all :: "Tag list \<Rightarrow> string \<Rightarrow> TagValues list \<Rightarrow> bool" where
  "key_accepted_by_all tags k sets =
     (case first_tag k tags of None \<Rightarrow> False
      | Some t \<Rightarrow> (\<forall>s\<in>set sets. matchesTagSet (tl t) s))"

definition nonempty_tags :: "Tag list \<Rightarrow> bool" where
  "nonempty_tags tags = (\<forall>t\<in>set tags. t \<noteq> [])"

section \<open>The theoretical limit in the words of the specification\<close>

text \<open>
  \<open>len(ids)\<close> when ids is non-empty; otherwise \<open>-1\<close> when kinds is empty; otherwise
  \<open>len(authors) * len(kinds)\<close> when authors is non-empty and every kind is replaceable;
  otherwise, when authors is non-empty, every kind is addressable and the \<open>d\<close> entry has
  at least one non-nil value, \<open>len(authors) * len(kinds)\<close> times the number of non-nil
  \<open>d\<close> values; otherwise \<open>-1\<close>.
\<close>

definition d_values :: "Filter \<Rightarrow> string option list" where
  "d_values f = concat (index_map (Filter.Tags f) ''d'')"

definition spec_theoretical_limit :: "Filter \<Rightarrow> int" where
  "spec_theoretical_limit f =
     (if elems (IDs f) \<noteq> [] then int (length (elems (IDs f)))
      else if elems (Kinds f) = [] then - 1
      else if elems (Authors f) \<noteq> [] \<and> list_all IsReplaceableKind (elems (Kinds f))
        then int (length (elems (Authors f))) * int (length (elems (Kinds f)))
      else if elems (Authors f) \<noteq> [] \<and> list_all IsAddressableKind (elems (Kinds f))
              \<and> list_ex (\<lambda>v. v \<noteq> None) (d_values f)
        then int (length (elems (Authors f))) * int (length (elems (Kinds f)))
               * int (length (filter (\<lambda>v. v \<noteq> None) (d_values f)))
      else - 1)"

section \<open>Hexadecimal strings in the words of the specification\<close>

text \<open>A string is valid hex when each of its characters is one of 0-9, a-f, A-F.\<close>

definition hex_digit :: "char \<Rightarrow> bool" where
  "hex_digit c = (c \<in> set ''0123456789abcdefABCDEF'')"

definition valid_hex :: "string \<Rightarrow> bool" where
  "valid_hex h = list_all hex_digit h"

text \<open>The bytes of a message before its first comma.\<close>

definition before_first_comma :: "string \<Rightarrow> string" where
  "before_first_comma message = takeWhile (\<lambda>c. c \<noteq> CHR '','') message"

section \<open>Events of the data model\<close>

text \<open>In the spec's data model every tag has at least one element, and an event is not nil.\<close>

definition event_tags_nonempty :: "Event \<Rightarrow> bool" where
  "event_tags_nonempty e = nonempty_tags (Event.Tags e)"

section \<open>What the envelope codec needs of the libraries\<close>

text \<open>
  A serialized envelope is a JSON array: an opening bracket, the texts of its elements
  separated by commas, a closing bracket.
\<close>

fun join :: "string list \<Rightarrow> string" where
  "join [] = []"
| "join [x] = x"
| "join (x # xs) = x @ '','' @ join xs"

definition array_text :: "string list \<Rightarrow> string" where
  "array_text es = [CHR 0x5B] @ join es @ '']''"

text \<open>The object that \<^verbatim>\<open>CountEnvelope.MarshalJSON\<close> writes for a count and an optional hll.\<close>

definition count_text :: "'e libs \<Rightarrow> int \<Rightarrow> string option \<Rightarrow> string" where
  "count_text L n hll =
     ''{'' @ quoted ''count'' @ '':'' @ FormatInt L n
       @ (case hll of None \<Rightarrow> [] | Some x \<Rightarrow> '','' @ quoted ''hll'' @ '':'' @ quoted x)
       @ ''}''"

text \<open>
  The values on which the libraries are taken to work: how gjson reads the text of one
  array element, which texts it reads as one element, which strings can stand between
  quotes as they are, which strings \<^verbatim>\<open>json.Marshal\<close> encodes without loss, and which
  events and filters their codecs write and read back.
\<close>

record json_domain =
  Parse :: "string \<Rightarrow> gjson_Result"
  is_value :: "string \<Rightarrow> bool"
  plain :: "string \<Rightarrow> bool"
  text_ok :: "string \<Rightarrow> bool"
  event_ok :: "Event \<Rightarrow> bool"
  filter_ok :: "Filter \<Rightarrow> bool"

text \<open>
  The contract: gjson splits an array of element texts into the readings of the
  elements; a quoted label is an element; a plain string between quotes and a string
  encoded by \<^verbatim>\<open>json.Marshal\<close> are read as that string; an encoded event is read as an
  object and decodes to the event; an encoded filter decodes to the filter and is not
  taken for a count result; \<^verbatim>\<open>true\<close> and \<^verbatim>\<open>false\<close> are elements read as they are; and the
  count object decodes to its count and its hll.
\<close>

definition libs_contract :: "'e libs \<Rightarrow> json_domain \<Rightarrow> bool" where
  "libs_contract L D =
     ((\<forall>es. es \<noteq> [] \<and> list_all (is_value D) es \<longrightarrow>
          gjson_Array L (array_text es) = map (Parse D) es)
      \<and> (\<forall>t. is_value D (quoted (Label t)))
      \<and> (\<forall>s. plain D s \<longrightarrow>
            is_value D (quoted s) \<and> Type (Parse D (quoted s)) = gjson_String
            \<and> Str (Parse D (quoted s)) = s)
      \<and> (\<forall>s. text_ok D s \<longrightarrow>
            is_value D (json_Marshal L s) \<and> Type (Parse D (json_Marshal L s)) = gjson_String
            \<and> Str (Parse D (json_Marshal L s)) = s)
      \<and> (\<forall>ev. event_ok D ev \<longrightarrow>
            is_value D (MarshalEasyJSON_Event L ev)
            \<and> IsObject (Parse D (MarshalEasyJSON_Event L ev))
            \<and> Raw (Parse D (MarshalEasyJSON_Event L ev)) = MarshalEasyJSON_Event L ev
            \<and> easyjson_Unmarshal_Event L (MarshalEasyJSON_Event L ev) zero_Event = (ev, None))
      \<and> (\<forall>f. filter_ok D f \<longrightarrow>
            is_value D (MarshalEasyJSON_Filter L f)
            \<and> Raw (Parse D (MarshalEasyJSON_Filter L f)) = MarshalEasyJSON_Filter L f
            \<and> easyjson_Unmarshal_Filter L (MarshalEasyJSON_Filter L f) zero_Filter = (f, None)
            \<and> (\<forall>n h. json_Unmarshal_countResult L (MarshalEasyJSON_Filter L f)
                        \<noteq> ((Some n, h), None)))
      \<and> is_value D ''true'' \<and> Raw (Parse D ''true'') = ''true''
      \<and> is_value D ''false'' \<and> Raw (Parse D ''false'') = ''false''
      \<and> (\<forall>n. is_value D (count_text L n None)
            \<and> Raw (Parse D (count_text L n None)) = count_text L n None
            \<and> json_Unmarshal_countResult L (count_text L n None) = ((Some n, []), None))
      \<and> (\<forall>n hex. length hex = 512 \<and> list_all (\<lambda>c. c \<in> set ''0123456789abcdef'') hex \<longrightarrow>
            is_value D (count_text L n (Some hex))
            \<and> Raw (Parse D (count_text L n (Some hex))) = count_text L n (Some hex)
            \<and> json_Unmarshal_countResult L (count_text L n (Some hex)) = ((Some n, hex), None)))"

text \<open>
  The envelopes of the shapes the specification lists: an EVENT with at least one
  event, a REQ with at least one filter, a COUNT that is a response (a count, with an hll
  of 256 bytes or none, and no filters) or a request (filters and nothing else), an AUTH
  that is a challenge or an event; with subscription and event ids that are plain and
  strings, events and filters of the domain.
\<close>

fun wf_envelope :: "json_domain \<Rightarrow> envelope \<Rightarrow> bool" where
  "wf_envelope D (EventEnvelope sub events) =
     ((case sub of None \<Rightarrow> True | Some s \<Rightarrow> plain D s)
      \<and> (case events of None \<Rightarrow> False | Some evs \<Rightarrow> evs \<noteq> [] \<and> list_all (event_ok D) evs))"
| "wf_envelope D (ReqEnvelope sub filters) =
     (plain D sub
      \<and> (case filters of None \<Rightarrow> False | Some fs \<Rightarrow> fs \<noteq> [] \<and> list_all (filter_ok D) fs))"
| "wf_envelope D (Count_Envelope v) =
     (plain D (SubscriptionID v)
      \<and> (case Count v of
            Some n \<Rightarrow>
              Filters v = None
              \<and> (case HyperLogLog v of None \<Rightarrow> True | Some hll \<Rightarrow> length hll = 256)
          | None \<Rightarrow>
              HyperLogLog v = None
              \<and> (case Filters v of
                    None \<Rightarrow> False
                  | Some fs \<Rightarrow> fs \<noteq> [] \<and> list_all (filter_ok D) fs)))"
| "wf_envelope D (NoticeEnvelope s) = text_ok D s"
| "wf_envelope D (EOSEEnvelope s) = text_ok D s"
| "wf_envelope D (CloseEnvelope s) = text_ok D s"
| "wf_envelope D (ClosedEnvelope sub reason) = (text_ok D sub \<and> text_ok D reason)"
| "wf_envelope D (OKEnvelope eventID ok reason) = (plain D eventID \<and> text_ok D reason)"
| "wf_envelope D (AuthEnvelope challenge event) =
     (case challenge of
        Some c \<Rightarrow> text_ok D c \<and> event = zero_Event
      | None \<Rightarrow> event_ok D event)"

section \<open>Lemmas about the matcher\<close>

lemma matchesTagSet_from_iff:
  "matchesTagSet_from n tag s \<longleftrightarrow>
     (\<forall>i<length s. \<forall>v. s ! i = Some v \<longrightarrow> n + i < length tag \<and> tag ! (n + i) = v)"
proof (induction n tag s rule: matchesTagSet_from.induct)
  case (1 i tag)
  then show ?case by simp
next
  case (2 i tag "values")
  then show ?case by (simp add: All_less_Suc2)
next
  case (3 i tag v "values")
  then show ?case by (auto simp add: All_less_Suc2)
qed

lemma matchesTagSet_spec:
  "slice_from_1 t = Inr vs \<Longrightarrow> matchesTagSet vs s = spec_set_matches_tag s t"
  by (cases t)
    (auto simp: slice_from_1_def matchesTagSet_def matchesTagSet_from_iff spec_set_matches_tag_def)

lemma sets_loop_True: "sets_loop tag sets True = Inr True"
  by (induction sets) auto

lemma sets_loop_nonempty:
  "slice_from_1 tag = Inr vs \<Longrightarrow>
   sets_loop tag sets h = Inr (h \<or> (\<exists>s\<in>set sets. matchesTagSet vs s))"
  by (induction sets arbitrary: h) (auto simp: sets_loop_True)

lemma sets_loop_Inr_True:
  "sets_loop tag sets h = Inr True \<Longrightarrow>
   h \<or> (\<exists>s\<in>set sets. \<exists>vs. slice_from_1 tag = Inr vs \<and> matchesTagSet vs s)"
proof (induction sets arbitrary: h)
  case Nil
  then show ?case by simp
next
  case (Cons s sets)
  show ?case
  proof (cases h)
    case True
    then show ?thesis by simp
  next
    case False
    with Cons.prems obtain vs where vs: "slice_from_1 tag = Inr vs"
      and rest: "sets_loop tag sets (matchesTagSet vs s) = Inr True"
      by (auto split: sum.splits)
    from Cons.IH [OF rest] vs show ?thesis by auto
  qed
qed

lemma key_accepted_skip:
  "Key t \<noteq> k \<Longrightarrow> key_accepted want (t # tags) k = key_accepted want tags k"
  by (simp add: key_accepted_def first_tag_def)

lemma key_accepted_here:
  "Key t = k \<Longrightarrow> key_accepted want (t # tags) k = first_tag_accepts (the (fmlookup want k)) t"
  by (simp add: key_accepted_def first_tag_def)

lemma key_accepted_drop:
  "k' \<noteq> k \<Longrightarrow> key_accepted (fmdrop k want) tags k' = key_accepted want tags k'"
  by (simp add: key_accepted_def split: option.splits)

lemma tags_loop_first:
  "nonempty_tags tags \<Longrightarrow>
   tags_loop want tags = Inr (\<forall>k\<in>fmdom' want. key_accepted want tags k)"
proof (induction tags arbitrary: want)
  case Nil
  then show ?case by (auto simp: key_accepted_def first_tag_def fmdom'_alt_def)
next
  case (Cons t tags)
  then obtain k vs where t: "t = k # vs" by (cases t) (auto simp: nonempty_tags_def)
  have sl: "slice_from_1 t = Inr vs" by (simp add: t slice_from_1_def)
  have key: "Key t = k" by (simp add: t Key_def)
  from Cons.prems have ne: "nonempty_tags tags" by (simp add: nonempty_tags_def)
  show ?case
  proof (cases "fmlookup want k")
    case None
    then have "k \<notin> fmdom' want" by (simp add: fmdom'_notI)
    have "key_accepted want (t # tags) k' = key_accepted want tags k'"
      if "k' \<in> fmdom' want" for k'
    proof -
      from that \<open>k \<notin> fmdom' want\<close> have "Key t \<noteq> k'" using key by auto
      then show ?thesis by (rule key_accepted_skip)
    qed
    then have "(\<forall>k'\<in>fmdom' want. key_accepted want (t # tags) k')
            = (\<forall>k'\<in>fmdom' want. key_accepted want tags k')" by simp
    with None Cons.IH [OF ne, of want] show ?thesis by (simp add: key)
  next
    case (Some sets)
    then have kin: "k \<in> fmdom' want" by (simp add: fmdom'I)
    have acc: "sets_loop t sets (length sets = 0) = Inr (first_tag_accepts sets t)"
      using sets_loop_nonempty [OF sl, of sets "length sets = 0"]
      by (simp add: first_tag_accepts_def t)
    have here: "key_accepted want (t # tags) k = first_tag_accepts sets t"
      using key_accepted_here [OF key, of want tags] Some by simp
    show ?thesis
    proof (cases "first_tag_accepts sets t")
      case False
      with here kin have "\<not> (\<forall>k\<in>fmdom' want. key_accepted want (t # tags) k)" by blast
      with Some acc False show ?thesis by (simp add: key)
    next
      case True
      have other: "\<And>k'. k' \<noteq> k \<Longrightarrow>
          key_accepted want (t # tags) k' = key_accepted (fmdrop k want) tags k'"
        using key by (simp add: key_accepted_skip key_accepted_drop)
      have "(\<forall>k'\<in>fmdom' want. key_accepted want (t # tags) k')
            = (\<forall>k'\<in>fmdom' (fmdrop k want). key_accepted (fmdrop k want) tags k')"
      proof
        assume a: "\<forall>k'\<in>fmdom' want. key_accepted want (t # tags) k'"
        show "\<forall>k'\<in>fmdom' (fmdrop k want). key_accepted (fmdrop k want) tags k'"
        proof
          fix k' assume "k' \<in> fmdom' (fmdrop k want)"
          then have "k' \<in> fmdom' want" "k' \<noteq> k" by simp_all
          with a other [of k'] show "key_accepted (fmdrop k want) tags k'" by simp
        qed
      next
        assume b: "\<forall>k'\<in>fmdom' (fmdrop k want). key_accepted (fmdrop k want) tags k'"
        show "\<forall>k'\<in>fmdom' want. key_accepted want (t # tags) k'"
        proof
          fix k' assume kd: "k' \<in> fmdom' want"
          show "key_accepted want (t # tags) k'"
          proof (cases "k' = k")
            case True
            with here \<open>first_tag_accepts sets t\<close> show ?thesis by simp
          next
            case False
            with kd have "k' \<in> fmdom' (fmdrop k want)" by simp
            with b other [OF False] show ?thesis by simp
          qed
        qed
      qed
      with Some acc True Cons.IH [OF ne, of "fmdrop k want"] show ?thesis
        by (simp add: key)
    qed
  qed
qed

lemma spec_tags_predicate_Cons:
  "spec_tags_predicate m tags \<Longrightarrow> spec_tags_predicate m (t # tags)"
  unfolding spec_tags_predicate_def by (meson list.set_intros(2))

lemma tags_loop_Inr_True:
  "tags_loop want tags = Inr True \<Longrightarrow> spec_tags_predicate want tags"
proof (induction tags arbitrary: want)
  case Nil
  then show ?case by (simp add: spec_tags_predicate_def fmdom'_alt_def)
next
  case (Cons t tags)
  show ?case
  proof (cases "fmlookup want (Key t)")
    case None
    with Cons.prems have "tags_loop want tags = Inr True" by simp
    then show ?thesis by (intro spec_tags_predicate_Cons Cons.IH)
  next
    case (Some sets)
    with Cons.prems have sl: "sets_loop t sets (length sets = 0) = Inr True"
      and rest: "tags_loop (fmdrop (Key t) want) tags = Inr True"
      by (auto split: sum.splits if_splits)
    from sets_loop_Inr_True [OF sl]
    have here: "sets = [] \<or> (\<exists>s\<in>set sets. spec_set_matches_tag s t)"
      using matchesTagSet_spec by auto
    from Cons.IH [OF rest] have others: "spec_tags_predicate (fmdrop (Key t) want) tags" .
    show ?thesis
      unfolding spec_tags_predicate_def
    proof
      fix k assume "k \<in> fmdom' want"
      show "\<exists>t'\<in>set (t # tags). Key t' = k \<and>
              (the (fmlookup want k) = [] \<or>
               (\<exists>s\<in>set (the (fmlookup want k)). spec_set_matches_tag s t'))"
      proof (cases "k = Key t")
        case True
        with Some here show ?thesis by auto
      next
        case False
        with \<open>k \<in> fmdom' want\<close> have "k \<in> fmdom' (fmdrop (Key t) want)" by simp
        with others False obtain t' where "t' \<in> set tags" "Key t' = k"
          "the (fmlookup want k) = [] \<or>
           (\<exists>s\<in>set (the (fmlookup want k)). spec_set_matches_tag s t')"
          unfolding spec_tags_predicate_def by fastforce
        then show ?thesis by auto
      qed
    qed
  qed
qed

lemma MatchesIgnoringTimestampConstraints_first_tags:
  assumes "IDs f = None" "Kinds f = None" "Authors f = None"
    and "nonempty_tags (Event.Tags e)"
  shows "MatchesIgnoringTimestampConstraints f (Some e) =
    Inr (\<forall>k\<in>fmdom' (tagmap (Filter.Tags f)).
           key_accepted (tagmap (Filter.Tags f)) (Event.Tags e) k)"
  using assms tags_loop_first [of "Event.Tags e" "tagmap (Filter.Tags f)"]
  by (simp add: MatchesIgnoringTimestampConstraints_def)

section \<open>Lemmas about the hexadecimal decoder\<close>

lemma digits_table: "map char_of [48..<58::nat] = ''0123456789''"
  by code_simp

lemma lower_table: "map char_of [97..<103::nat] = ''abcdef''"
  by code_simp

lemma upper_table: "map char_of [65..<71::nat] = ''ABCDEF''"
  by code_simp

lemma char_in_range:
  assumes "lo \<le> (of_char c :: nat)" "(of_char c :: nat) < hi"
  shows "c \<in> set (map char_of [lo..<hi])"
proof -
  have "c = char_of (of_char c :: nat)" by simp
  moreover from assms have "(of_char c :: nat) \<in> set [lo..<hi]" by simp
  ultimately show ?thesis unfolding set_map by (metis imageI)
qed

lemma hex_digit_fromHexChar: "hex_digit c \<Longrightarrow> fromHexChar c \<noteq> None"
  by (auto simp: hex_digit_def fromHexChar_def)

lemma fromHexChar_hex_digit: "fromHexChar c \<noteq> None \<longleftrightarrow> hex_digit c"
proof
  assume "fromHexChar c \<noteq> None"
  then consider "48 \<le> (of_char c :: nat) \<and> (of_char c :: nat) < 58"
    | "97 \<le> (of_char c :: nat) \<and> (of_char c :: nat) < 103"
    | "65 \<le> (of_char c :: nat) \<and> (of_char c :: nat) < 71"
    by (auto simp: fromHexChar_def Let_def split: if_splits)
  then show "hex_digit c"
  proof cases
    case 1
    then have "c \<in> set (map char_of [48..<58::nat])" by (intro char_in_range) auto
    then show ?thesis unfolding hex_digit_def digits_table by auto
  next
    case 2
    then have "c \<in> set (map char_of [97..<103::nat])" by (intro char_in_range) auto
    then show ?thesis unfolding hex_digit_def lower_table by auto
  next
    case 3
    then have "c \<in> set (map char_of [65..<71::nat])" by (intro char_in_range) auto
    then show ?thesis unfolding hex_digit_def upper_table by auto
  qed
next
  assume "hex_digit c"
  then show "fromHexChar c \<noteq> None" by (rule hex_digit_fromHexChar)
qed

lemma hex_Decode_valid:
  "list_all hex_digit s \<Longrightarrow> even (length s) \<Longrightarrow>
   \<exists>bs. hex_Decode s dst = (dst @ bs, None) \<and> length bs = length s div 2"
proof (induction s dst rule: hex_Decode.induct)
  case (1 dst)
  then show ?case by simp
next
  case (2 p dst)
  then show ?case by simp
next
  case (3 p q src dst)
  from "3.prems" have "hex_digit p" "hex_digit q" by simp_all
  then have "fromHexChar p \<noteq> None" "fromHexChar q \<noteq> None"
    by (simp_all add: hex_digit_fromHexChar)
  then obtain a b where a: "fromHexChar p = Some a" and b: "fromHexChar q = Some b"
    by auto
  from "3.prems" have "list_all hex_digit src" "even (length src)" by simp_all
  from "3.IH" [OF a b this] obtain bs where
    "hex_Decode src (dst @ [or (push_bit 4 a) b]) = ((dst @ [or (push_bit 4 a) b]) @ bs, None)"
    "length bs = length src div 2" by blast
  then show ?case using a b by simp
qed

lemma hex_Decode_invalid:
  "\<not> list_all hex_digit s \<Longrightarrow> \<exists>bs err. hex_Decode s dst = (bs, Some err)"
proof (induction s dst rule: hex_Decode.induct)
  case (1 dst)
  then show ?case by simp
next
  case (2 p dst)
  then show ?case by (simp split: option.splits)
next
  case (3 p q src dst)
  show ?case
  proof (cases "fromHexChar p")
    case None
    then show ?thesis by simp
  next
    case (Some a)
    note a = this
    show ?thesis
    proof (cases "fromHexChar q")
      case None
      with a show ?thesis by simp
    next
      case (Some b)
      from a have "hex_digit p" using fromHexChar_hex_digit [of p] by simp
      moreover from Some have "hex_digit q" using fromHexChar_hex_digit [of q] by simp
      ultimately have "\<not> list_all hex_digit src" using "3.prems" by simp
      from "3.IH" [OF a Some this] a Some show ?thesis by simp
    qed
  qed
qed

lemma hex_DecodeString_valid:
  "valid_hex h \<Longrightarrow> length h = 512 \<Longrightarrow>
   \<exists>bs. hex_DecodeString h = (bs, None) \<and> length bs = 256"
  using hex_Decode_valid [of h "[]"] by (auto simp: valid_hex_def hex_DecodeString_def)

lemma hex_DecodeString_invalid:
  "\<not> valid_hex h \<Longrightarrow> \<exists>bs err. hex_DecodeString h = (bs, Some err)"
  using hex_Decode_invalid [of h "[]"] by (simp add: valid_hex_def hex_DecodeString_def)

section \<open>Lemmas about ParseMessage\<close>

lemma Index_from_none: "c \<notin> set s \<Longrightarrow> Index_from i s c = - 1"
  by (induction s arbitrary: i) auto

lemma Index_from_some:
  "c \<in> set s \<Longrightarrow> Index_from i s c = int (i + length (takeWhile (\<lambda>x. x \<noteq> c) s))"
  by (induction s arbitrary: i) auto

lemma take_length_takeWhile: "take (length (takeWhile P s)) s = takeWhile P s"
  by (induction s) auto

lemma label_bytes:
  "CHR '','' \<in> set message \<Longrightarrow>
   bytes_Index message CHR '','' \<noteq> - 1 \<and>
   take (nat (bytes_Index message CHR '','')) message = before_first_comma message"
  by (simp add: bytes_Index_def Index_from_some take_length_takeWhile before_first_comma_def)

lemma switch_label_None:
  "switch_label l = None \<longleftrightarrow> (\<forall>t\<in>set switch_order. \<not> sublist (Label t) l)"
  by (simp add: switch_label_def switch_order_def bytes_Contains_def)

lemma switch_label_first:
  "sublist (Label t) l \<Longrightarrow>
   \<forall>t'\<in>set (takeWhile (\<lambda>x. x \<noteq> t) switch_order). \<not> sublist (Label t') l \<Longrightarrow>
   switch_label l = Some t"
  by (cases t) (simp_all add: switch_label_def switch_order_def bytes_Contains_def)

section \<open>Lemmas about the matcher of src/unnamed/part_002\<close>

lemma values_j_loop_matchesTagSet_from:
  "values_j_loop j tag s = matchesTagSet_from j tag s"
  by (induction j tag s rule: values_j_loop.induct) auto

lemma values_i_loop_all:
  "values_i_loop tag sets = (\<forall>s\<in>set sets. matchesTagSet tag s)"
  by (induction sets) (auto simp: matchesTagSet_def values_j_loop_matchesTagSet_from)

lemma valuesOf_first_tag:
  "nonempty_tags tags \<Longrightarrow> valuesOf tags k = Inr (map_option tl (first_tag k tags))"
proof (induction tags)
  case Nil
  then show ?case by (simp add: first_tag_def)
next
  case (Cons t tags)
  then obtain x vs where t: "t = x # vs" by (cases t) (auto simp: nonempty_tags_def)
  from Cons.prems have "nonempty_tags tags" by (simp add: nonempty_tags_def)
  with Cons.IH show ?case by (simp add: first_tag_def t slice_from_1_def)
qed

lemma range_Tags_all:
  "nonempty_tags tags \<Longrightarrow>
   range_Tags tags entries = Inr (\<forall>(k, sets)\<in>set entries. key_accepted_by_all tags k sets)"
proof (induction entries)
  case Nil
  then show ?case by simp
next
  case (Cons kv entries)
  obtain k sets where kv: "kv = (k, sets)" by (cases kv)
  show ?case
  proof (cases "first_tag k tags")
    case None
    with Cons.prems show ?thesis
      by (simp add: kv valuesOf_first_tag key_accepted_by_all_def)
  next
    case (Some t)
    with Cons.prems Cons.IH show ?thesis
      by (simp add: kv valuesOf_first_tag key_accepted_by_all_def values_i_loop_all)
  qed
qed

lemma range_order_lookup:
  "range_order entries m \<Longrightarrow> fmlookup m k = Some sets \<longleftrightarrow> (k, sets) \<in> set entries"
  by (auto simp: range_order_def fmlookup_of_list)

lemma key_accepted_lookup:
  "fmlookup m k = Some sets \<Longrightarrow>
   key_accepted m tags k =
     (case first_tag k tags of None \<Rightarrow> False | Some t \<Rightarrow> first_tag_accepts sets t)"
  by (simp add: key_accepted_def split: option.splits)

lemma tags_loop_entries:
  assumes ro: "range_order entries m" and ne: "nonempty_tags tags"
  shows "tags_loop m tags =
    Inr (\<forall>(k, sets)\<in>set entries.
           case first_tag k tags of None \<Rightarrow> False | Some t \<Rightarrow> first_tag_accepts sets t)"
proof -
  have "(\<forall>k\<in>fmdom' m. key_accepted m tags k) =
        (\<forall>(k, sets)\<in>set entries.
           case first_tag k tags of None \<Rightarrow> False | Some t \<Rightarrow> first_tag_accepts sets t)"
  proof
    assume a: "\<forall>k\<in>fmdom' m. key_accepted m tags k"
    show "\<forall>(k, sets)\<in>set entries.
           case first_tag k tags of None \<Rightarrow> False | Some t \<Rightarrow> first_tag_accepts sets t"
    proof (intro ballI, clarify)
      fix k sets assume "(k, sets) \<in> set entries"
      then have l: "fmlookup m k = Some sets" using range_order_lookup [OF ro] by simp
      then have "k \<in> fmdom' m" by (rule fmdom'I)
      with a have "key_accepted m tags k" by blast
      with key_accepted_lookup [OF l, of tags]
      show "case first_tag k tags of None \<Rightarrow> False | Some t \<Rightarrow> first_tag_accepts sets t"
        by simp
    qed
  next
    assume b: "\<forall>(k, sets)\<in>set entries.
           case first_tag k tags of None \<Rightarrow> False | Some t \<Rightarrow> first_tag_accepts sets t"
    show "\<forall>k\<in>fmdom' m. key_accepted m tags k"
    proof
      fix k assume "k \<in> fmdom' m"
      then obtain sets where l: "fmlookup m k = Some sets" by (auto simp: fmlookup_dom'_iff)
      then have "(k, sets) \<in> set entries" using range_order_lookup [OF ro] by simp
      with b have "case first_tag k tags of None \<Rightarrow> False | Some t \<Rightarrow> first_tag_accepts sets t"
        by blast
      with key_accepted_lookup [OF l, of tags] show "key_accepted m tags k" by simp
    qed
  qed
  with tags_loop_first [OF ne, of m] show ?thesis by simp
qed

lemma accepts_of_all:
  "key_accepted_by_all tags k sets \<Longrightarrow>
   (case first_tag k tags of None \<Rightarrow> False | Some t \<Rightarrow> first_tag_accepts sets t)"
  by (cases sets) (auto simp: key_accepted_by_all_def first_tag_accepts_def split: option.splits)

lemma accepts_iff_all:
  "length sets \<le> 1 \<Longrightarrow>
   (case first_tag k tags of None \<Rightarrow> False | Some t \<Rightarrow> first_tag_accepts sets t)
     = key_accepted_by_all tags k sets"
  by (cases sets) (auto simp: key_accepted_by_all_def first_tag_accepts_def split: option.splits)

section \<open>Lemmas about FilterEqual and Clone\<close>

lemma similar_slices_Clone: "similar s (slices_Clone s)"
  by (auto simp: similar_def slices_Clone_def len_def elems_def list_all_iff split: option.splits)

lemma TagValues_equal_refl: "TagValues_equal a a"
  by (auto simp: TagValues_equal_def arePointerValuesEqual_def list_all_iff split: option.splits)

lemma EqualFunc_refl: "EqualFunc v v TagValues_equal"
  by (induction v) (simp_all add: TagValues_equal_refl)

lemma arePointerValuesEqual_copy:
  "arePointerValuesEqual p (case p of None \<Rightarrow> None | Some x \<Rightarrow> Some x)"
  by (auto simp: arePointerValuesEqual_def split: option.splits)

lemma tagmap_Clone: "tagmap (Filter.Tags (Clone f)) = tagmap (Filter.Tags f)"
proof (cases "Filter.Tags f")
  case None
  then show ?thesis by (simp add: Clone_def tagmap_def)
next
  case (Some m)
  have "fmmap ((@) []) m = m"
    by (rule fmap_ext) (auto simp: map_option_case split: option.splits)
  with Some show ?thesis by (simp only: Clone_def tagmap_def Filter.simps option.case)
qed

lemma Tags_range_equal:
  "\<forall>k\<in>fmdom' (tagmap (Filter.Tags f)).
      case fmlookup (tagmap (Filter.Tags f)) k of
        None \<Rightarrow> False
      | Some bv \<Rightarrow> EqualFunc (index_map (Filter.Tags f) k) bv TagValues_equal"
  by (auto simp: index_map_def EqualFunc_refl fmlookup_dom'_iff split: option.splits)

section \<open>Lemmas about GetTheoreticalLimit\<close>

text \<open>
  Where no product overflows, and unless the \<open>d\<close> entry holds sets with no non-nil value,
  \<open>GetTheoreticalLimit\<close> returns what the specification says.
\<close>

lemma all_kinds_list_all: "all_kinds p kinds = list_all p kinds"
  by (induction kinds) auto

lemma count_values_filter:
  "count_values vs dlen = dlen + int (length (filter (\<lambda>v. v \<noteq> None) vs))"
  by (induction vs arbitrary: dlen) auto

lemma count_sets_filter:
  "count_sets sets dlen = dlen + int (length (filter (\<lambda>v. v \<noteq> None) (concat sets)))"
  by (induction sets arbitrary: dlen) (auto simp: count_values_filter)

lemma int_mul_exact: "0 \<le> a * b \<Longrightarrow> a * b < 2 ^ 63 \<Longrightarrow> int_mul a b = a * b"
  by (simp add: int_mul_def)

lemma GetTheoreticalLimit_agrees:
  assumes small: "int (len (Authors f)) * int (len (Kinds f))
            * int (length (filter (\<lambda>v. v \<noteq> None) (d_values f))) < 2 ^ 63"
    and small2: "int (len (Authors f)) * int (len (Kinds f)) < 2 ^ 63"
    and sets: "index_map (Filter.Tags f) ''d'' \<noteq> [] \<longrightarrow> list_ex (\<lambda>v. v \<noteq> None) (d_values f)"
  shows "GetTheoreticalLimit f = spec_theoretical_limit f"
proof -
  let ?A = "int (len (Authors f))" and ?K = "int (len (Kinds f))"
  let ?D = "int (length (filter (\<lambda>v. v \<noteq> None) (d_values f)))"
  have m2: "int_mul ?A ?K = ?A * ?K"
    using small2 by (intro int_mul_exact) simp_all
  have m3: "int_mul (?A * ?K) ?D = ?A * ?K * ?D"
    using small by (intro int_mul_exact) simp_all
  have cnt: "count_sets (index_map (Filter.Tags f) ''d'') 0 = ?D"
    by (simp add: count_sets_filter d_values_def)
  have ex: "list_ex (\<lambda>v. v \<noteq> None) (d_values f) \<Longrightarrow> index_map (Filter.Tags f) ''d'' \<noteq> []"
    by (auto simp: d_values_def list_ex_iff)
  have l: "\<And>s :: 'a list option. length (elems s) = len s"
    "\<And>s :: 'a list option. (elems s = []) = (len s = 0)"
    by (auto simp: len_def elems_def split: option.splits)
  show ?thesis
  proof (cases "len (IDs f) > 0")
    case True
    then show ?thesis by (simp add: GetTheoreticalLimit_def spec_theoretical_limit_def l)
  next
    case ids: False
    show ?thesis
    proof (cases "len (Kinds f) = 0")
      case True
      with ids show ?thesis by (simp add: GetTheoreticalLimit_def spec_theoretical_limit_def l)
    next
      case kinds: False
      show ?thesis
      proof (cases "len (Authors f) > 0")
        case False
        with ids kinds show ?thesis
          by (simp add: GetTheoreticalLimit_def spec_theoretical_limit_def l)
      next
        case authors: True
        show ?thesis
        proof (cases "list_all IsReplaceableKind (elems (Kinds f))")
          case True
          with ids kinds authors show ?thesis
            by (simp add: GetTheoreticalLimit_def spec_theoretical_limit_def l
                all_kinds_list_all m2)
        next
          case repl: False
          show ?thesis
          proof (cases "index_map (Filter.Tags f) ''d'' = []")
            case True
            with ex have "\<not> list_ex (\<lambda>v. v \<noteq> None) (d_values f)" by blast
            with True ids kinds authors repl show ?thesis
              by (simp add: GetTheoreticalLimit_def spec_theoretical_limit_def l
                  all_kinds_list_all)
          next
            case False
            with sets have e: "list_ex (\<lambda>v. v \<noteq> None) (d_values f)" by blast
            have "GetTheoreticalLimit f =
                (if list_all IsAddressableKind (elems (Kinds f)) then ?A * ?K * ?D else - 1)"
              using False ids kinds authors repl
              by (simp only: GetTheoreticalLimit_def all_kinds_list_all m2 m3 cnt) simp
            moreover have "spec_theoretical_limit f =
                (if list_all IsAddressableKind (elems (Kinds f)) then ?A * ?K * ?D else - 1)"
              using e ids kinds authors repl
              by (simp only: spec_theoretical_limit_def l) simp
            ultimately show ?thesis by simp
          qed
        qed
      qed
    qed
  qed
qed

section \<open>Lemmas about Clone on a store\<close>

lemma agree_except_refl: "agree_except m h h"
  by (simp add: agree_except_def)

lemma agree_except_trans: "agree_except m h1 h2 \<Longrightarrow> agree_except m h2 h3 \<Longrightarrow> agree_except m h1 h3"
  by (auto simp: agree_except_def)

lemma agree_except_append: "agree_except m h (h @ ys)"
  by (simp add: agree_except_def nth_append)

lemma agree_except_update: "agree_except m h (h[m := x])"
  by (simp add: agree_except_def)

lemma not_array_agree:
  "not_array h m \<Longrightarrow> agree_except m h h' \<Longrightarrow> load h' m = Some (MapObject es) \<Longrightarrow> not_array h' m"
  by (auto simp: not_array_def load_def split: if_splits)

lemma load_agree:
  assumes "agree_except m h h'" "not_array h m" "load h a = Some x" "\<And>es. x \<noteq> MapObject es"
  shows "load h' a = Some x"
proof -
  from assms(3) have a: "a < length h" "h ! a = x" by (auto simp: load_def split: if_splits)
  with assms(2,4) have "a \<noteq> m" by (auto simp: not_array_def)
  with assms(1) a show ?thesis by (auto simp: agree_except_def load_def)
qed

lemma those_map_mono:
  "those (map f xs) = Some vs \<Longrightarrow> (\<And>x y. x \<in> set xs \<Longrightarrow> f x = Some y \<Longrightarrow> g x = Some y)
   \<Longrightarrow> those (map g xs) = Some vs"
proof (induction xs arbitrary: vs)
  case Nil
  then show ?case by simp
next
  case (Cons x xs)
  from Cons.prems(1) obtain y ys where y: "f x = Some y" and ys: "those (map f xs) = Some ys"
    and vs: "vs = y # ys" by (auto split: option.splits)
  from Cons.prems(2) [OF _ y] have "g x = Some y" by simp
  moreover from Cons.IH [OF ys] Cons.prems(2) have "those (map g xs) = Some ys" by auto
  ultimately show ?case using vs by simp
qed

lemma those_map_append:
  "those (map f xs) = Some us \<Longrightarrow> those (map f ys) = Some vs
   \<Longrightarrow> those (map f (xs @ ys)) = Some (us @ vs)"
  by (induction xs arbitrary: us) (auto split: option.splits)

lemma read_pointer_agree:
  assumes "agree_except m h h'" "not_array h m" "read_pointer h p = Some v"
  shows "read_pointer h' p = Some v"
proof (cases p)
  case None
  with assms show ?thesis by (simp add: read_pointer_def)
next
  case (Some a)
  with assms(3) obtain x where "load h a = Some (StringVar x)" "v = Some x"
    by (auto simp: read_pointer_def split: option.splits obj.splits)
  with load_agree [OF assms(1,2), of a "StringVar x"] Some show ?thesis
    by (simp add: read_pointer_def)
qed

lemma read_slice_array_agree:
  assumes "agree_except m h h'" "not_array h m" "read_slice h s = Some r"
    and "\<And>es. r \<noteq> Some (MapObject es)"
  shows "read_slice h' s = Some r"
proof (cases s)
  case NilSlice
  with assms show ?thesis by (simp add: read_slice_def)
next
  case (Slice a off n c)
  with assms(3) obtain arr where arr: "load h a = Some arr" "r = Some (window arr off n)"
    by (auto simp: read_slice_def split: option.splits)
  have "arr \<noteq> MapObject es" for es
  proof
    assume "arr = MapObject es"
    with arr(2) have "r = Some (MapObject es)" by simp
    with assms(4) show False by blast
  qed
  from load_agree [OF assms(1,2) arr(1) this] arr(2) Slice show ?thesis
    by (simp add: read_slice_def)
qed

lemma read_strings_agree:
  assumes "agree_except m h h'" "not_array h m" "read_strings h s = Some v"
  shows "read_strings h' s = Some v"
proof -
  from assms(3) consider "read_slice h s = Some None" "v = None"
    | xs where "read_slice h s = Some (Some (StringArray xs))" "v = Some xs"
    by (auto simp: read_strings_def split: option.splits obj.splits)
  then show ?thesis
  proof cases
    case 1
    from read_slice_array_agree [OF assms(1,2) 1(1)] 1(2) show ?thesis
      by (simp add: read_strings_def)
  next
    case 2
    from read_slice_array_agree [OF assms(1,2) 2(1)] 2(2) show ?thesis
      by (simp add: read_strings_def)
  qed
qed

lemma read_ints_agree:
  assumes "agree_except m h h'" "not_array h m" "read_ints h s = Some v"
  shows "read_ints h' s = Some v"
proof -
  from assms(3) consider "read_slice h s = Some None" "v = None"
    | xs where "read_slice h s = Some (Some (IntArray xs))" "v = Some xs"
    by (auto simp: read_ints_def split: option.splits obj.splits)
  then show ?thesis
  proof cases
    case 1
    from read_slice_array_agree [OF assms(1,2) 1(1)] 1(2) show ?thesis
      by (simp add: read_ints_def)
  next
    case 2
    from read_slice_array_agree [OF assms(1,2) 2(1)] 2(2) show ?thesis
      by (simp add: read_ints_def)
  qed
qed

lemma read_TagValues_agree:
  assumes "agree_except m h h'" "not_array h m" "read_TagValues h s = Some v"
  shows "read_TagValues h' s = Some v"
proof -
  from assms(3) consider "read_slice h s = Some None" "v = []"
    | ps where "read_slice h s = Some (Some (PointerArray ps))"
        "those (map (read_pointer h) ps) = Some v"
    by (auto simp: read_TagValues_def split: option.splits obj.splits)
  then show ?thesis
  proof cases
    case 1
    from read_slice_array_agree [OF assms(1,2) 1(1)] 1(2) show ?thesis
      by (simp add: read_TagValues_def)
  next
    case 2
    from those_map_mono [OF 2(2), of "read_pointer h'"] read_pointer_agree [OF assms(1,2)]
    have "those (map (read_pointer h') ps) = Some v" by blast
    with read_slice_array_agree [OF assms(1,2) 2(1)] show ?thesis
      by (simp add: read_TagValues_def)
  qed
qed

lemma read_sets_agree:
  assumes "agree_except m h h'" "not_array h m" "read_sets h s = Some v"
  shows "read_sets h' s = Some v"
proof -
  from assms(3) consider "read_slice h s = Some None" "v = []"
    | ss where "read_slice h s = Some (Some (SliceArray ss))"
        "those (map (read_TagValues h) ss) = Some v"
    by (auto simp: read_sets_def split: option.splits obj.splits)
  then show ?thesis
  proof cases
    case 1
    from read_slice_array_agree [OF assms(1,2) 1(1)] 1(2) show ?thesis
      by (simp add: read_sets_def)
  next
    case 2
    from those_map_mono [OF 2(2), of "read_TagValues h'"] read_TagValues_agree [OF assms(1,2)]
    have "those (map (read_TagValues h') ss) = Some v" by blast
    with read_slice_array_agree [OF assms(1,2) 2(1)] show ?thesis
      by (simp add: read_sets_def)
  qed
qed

lemma read_Timestamp_agree:
  assumes "agree_except m h h'" "not_array h m" "read_Timestamp h p = Some v"
  shows "read_Timestamp h' p = Some v"
proof (cases p)
  case None
  with assms show ?thesis by (simp add: read_Timestamp_def)
next
  case (Some a)
  with assms(3) obtain x where "load h a = Some (TimestampVar x)" "v = Some x"
    by (auto simp: read_Timestamp_def split: option.splits obj.splits)
  with load_agree [OF assms(1,2), of a "TimestampVar x"] Some show ?thesis
    by (simp add: read_Timestamp_def)
qed

lemma window_idem: "window (window x off n) 0 n = window x off n"
  by (cases x) simp_all

lemma slices_Clone_store_reads:
  assumes "read_slice h s = Some r"
  shows "\<exists>h' s' ys. slices_Clone_store h s = Some (h', s') \<and> h' = h @ ys
           \<and> read_slice h' s' = Some r"
proof (cases s)
  case NilSlice
  with assms show ?thesis by (simp add: slices_Clone_store_def read_slice_def)
next
  case (Slice a off n c)
  with assms obtain arr where arr: "load h a = Some arr" "r = Some (window arr off n)"
    by (auto simp: read_slice_def split: option.splits)
  show ?thesis
  proof (cases "n = 0")
    case True
    with Slice arr show ?thesis by (simp add: slices_Clone_store_def read_slice_def)
  next
    case False
    with Slice arr show ?thesis
      by (simp add: slices_Clone_store_def read_slice_def new_def load_def window_idem)
  qed
qed

lemma not_array_beyond: "length h \<le> m \<Longrightarrow> not_array h m"
  by (simp add: not_array_def)

lemma read_sets_slice:
  "read_sets h s = Some v \<Longrightarrow> \<exists>r. read_slice h s = Some r"
  by (auto simp: read_sets_def split: option.splits)

lemma read_sets_clone:
  assumes "read_sets h s = Some v" "read_slice h s = Some r" "read_slice (h @ ys) s' = Some r"
  shows "read_sets (h @ ys) s' = Some v"
proof -
  have r: "agree_except (length h) h (h @ ys)" by (rule agree_except_append)
  have n: "not_array h (length h)" by (simp add: not_array_beyond)
  from assms(1,2) consider "r = None" "v = []"
    | ss where "r = Some (SliceArray ss)" "those (map (read_TagValues h) ss) = Some v"
    by (auto simp: read_sets_def split: option.splits obj.splits)
  then show ?thesis
  proof cases
    case 1
    with assms(3) show ?thesis by (simp add: read_sets_def)
  next
    case 2
    from those_map_mono [OF 2(2), of "read_TagValues (h @ ys)"] read_TagValues_agree [OF r n]
    have "those (map (read_TagValues (h @ ys)) ss) = Some v" by blast
    with 2(1) assms(3) show ?thesis by (simp add: read_sets_def)
  qed
qed

lemma read_entry_agree:
  assumes "agree_except m h h'" "not_array h m" "those (map (read_entry h) xs) = Some vs"
  shows "those (map (read_entry h') xs) = Some vs"
proof (rule those_map_mono [OF assms(3)])
  fix x y assume "read_entry h x = Some y"
  then obtain k v val where x: "x = (k, v)" and v: "read_sets h v = Some val" and y: "y = (k, val)"
    by (cases x) (auto simp: read_entry_def)
  from read_sets_agree [OF assms(1,2) v] x y show "read_entry h' x = Some y" by (simp add: read_entry_def)
qed

lemma update_fresh: "k \<notin> fst ` set acc \<Longrightarrow> AList.update k v acc = acc @ [(k, v)]"
  by (induction acc) auto

lemma clone_entries_reads:
  assumes "load h m = Some (MapObject acc)"
    and "those (map (read_entry h) acc) = Some vacc"
    and "those (map (read_entry h) es) = Some ves"
    and "distinct (map fst es)" and "fst ` set acc \<inter> fst ` set es = {}"
  shows "\<exists>h' acc'. clone_entries h m es = Some h' \<and> agree_except m h h'
            \<and> load h' m = Some (MapObject acc')
            \<and> those (map (read_entry h') acc') = Some (vacc @ ves)"
  using assms
proof (induction es arbitrary: h acc vacc ves)
  case Nil
  then show ?case by (auto simp: agree_except_refl)
next
  case (Cons kv es)
  obtain k v where kv: "kv = (k, v)" by (cases kv)
  from Cons.prems(3) obtain val ves' where val: "read_sets h v = Some val"
    and ves': "those (map (read_entry h) es) = Some ves'" and ves: "ves = (k, val) # ves'"
    by (auto simp: kv read_entry_def split: option.splits)
  from Cons.prems(1) have m: "m < length h" "h ! m = MapObject acc"
    by (auto simp: load_def split: if_splits)
  then have na: "not_array h m" by (simp add: not_array_def)
  from read_sets_slice [OF val] obtain r where r: "read_slice h v = Some r" by blast
  from slices_Clone_store_reads [OF r] obtain h1 v' ys where
    c: "slices_Clone_store h v = Some (h1, v')" and h1: "h1 = h @ ys"
    and r1: "read_slice h1 v' = Some r" by blast
  from read_sets_clone [OF val r] r1 h1 have val1: "read_sets h1 v' = Some val" by simp
  from m h1 have m1: "load h1 m = Some (MapObject acc)" by (simp add: load_def nth_append)
  then have na1: "not_array h1 m" by (auto simp: not_array_def load_def split: if_splits)
  from Cons.prems(5) have fresh: "k \<notin> fst ` set acc" by (auto simp: kv)
  define h2 where "h2 = h1[m := MapObject (acc @ [(k, v')])]"
  from m1 fresh have ma: "map_assign h1 m k v' = Some h2"
    by (simp add: map_assign_def h2_def update_fresh)
  have ag1: "agree_except m h h1" unfolding h1 by (rule agree_except_append)
  have ag2: "agree_except m h1 h2" unfolding h2_def by (rule agree_except_update)
  have ag12: "agree_except m h h2" by (rule agree_except_trans [OF ag1 ag2])
  from m1 have m2: "load h2 m = Some (MapObject (acc @ [(k, v')]))"
    by (auto simp: h2_def load_def split: if_splits)
  from read_sets_agree [OF ag2 na1 val1] have "read_entry h2 (k, v') = Some (k, val)"
    by (simp add: read_entry_def)
  then have one: "those (map (read_entry h2) [(k, v')]) = Some [(k, val)]" by simp
  from those_map_append [OF read_entry_agree [OF ag12 na Cons.prems(2)] one]
  have acc2: "those (map (read_entry h2) (acc @ [(k, v')])) = Some (vacc @ [(k, val)])" .
  from read_entry_agree [OF ag12 na ves'] have es2: "those (map (read_entry h2) es) = Some ves'" .
  from Cons.prems(4) have d: "distinct (map fst es)" and knew: "k \<notin> fst ` set es"
    by (auto simp: kv)
  from Cons.prems(5) knew have disj: "fst ` set (acc @ [(k, v')]) \<inter> fst ` set es = {}"
    by (auto simp: kv)
  from Cons.IH [OF m2 acc2 es2 d disj] obtain h' acc' where
    ce: "clone_entries h2 m es = Some h'" and ag3: "agree_except m h2 h'"
    and m': "load h' m = Some (MapObject acc')"
    and reads: "those (map (read_entry h') acc') = Some ((vacc @ [(k, val)]) @ ves')" by blast
  from c ma ce have "clone_entries h m (kv # es) = Some h'" by (simp add: kv)
  moreover from ag12 ag3 have "agree_except m h h'" by (rule agree_except_trans)
  moreover from reads ves have "those (map (read_entry h') acc') = Some (vacc @ ves)" by simp
  ultimately show ?case using m' by blast
qed

lemma keeps_append: "keeps h (h @ ys)"
  unfolding keeps_def using agree_except_append by blast

lemma load_keeps: "keeps h h' \<Longrightarrow> load h a = Some x \<Longrightarrow> load h' a = Some x"
  by (auto simp: keeps_def agree_except_def load_def split: if_splits)

lemma read_strings_keeps: "keeps h h' \<Longrightarrow> read_strings h s = Some v \<Longrightarrow> read_strings h' s = Some v"
  unfolding keeps_def using read_strings_agree not_array_beyond by blast

lemma read_ints_keeps: "keeps h h' \<Longrightarrow> read_ints h s = Some v \<Longrightarrow> read_ints h' s = Some v"
  unfolding keeps_def using read_ints_agree not_array_beyond by blast

lemma read_Timestamp_keeps:
  "keeps h h' \<Longrightarrow> read_Timestamp h p = Some v \<Longrightarrow> read_Timestamp h' p = Some v"
  unfolding keeps_def using read_Timestamp_agree not_array_beyond by blast

lemma read_entries_keeps:
  "keeps h h' \<Longrightarrow> those (map (read_entry h) xs) = Some vs
   \<Longrightarrow> those (map (read_entry h') xs) = Some vs"
  unfolding keeps_def using read_entry_agree not_array_beyond by blast

lemma read_TagMap_keeps:
  assumes "keeps h h'" "read_TagMap h tags = Some v"
  shows "read_TagMap h' tags = Some v"
proof (cases tags)
  case None
  with assms show ?thesis by (simp add: read_TagMap_def)
next
  case (Some m)
  with assms(2) obtain es kvs where es: "load h m = Some (MapObject es)"
    and kvs: "those (map (read_entry h) es) = Some kvs" and v: "v = Some (fmap_of_list kvs)"
    by (auto simp: read_TagMap_def split: option.splits obj.splits)
  from load_keeps [OF assms(1) es] read_entries_keeps [OF assms(1) kvs] v Some
  show ?thesis by (simp add: read_TagMap_def)
qed

lemma read_Filter_keeps:
  assumes "keeps h h'" "read_Filter h ef = Some fv"
  shows "read_Filter h' ef = Some fv"
proof -
  from assms(2) obtain ids kinds authors tags since until where
    r: "read_strings h (sIDs ef) = Some ids" "read_ints h (sKinds ef) = Some kinds"
       "read_strings h (sAuthors ef) = Some authors" "read_TagMap h (sTags ef) = Some tags"
       "read_Timestamp h (sSince ef) = Some since" "read_Timestamp h (sUntil ef) = Some until"
    and fv: "fv = \<lparr>IDs = ids, Kinds = kinds, Authors = authors, Tags = tags,
                   Since = since, Until = until, Limit = sLimit ef,
                   Search = sSearch ef, LimitZero = sLimitZero ef\<rparr>"
    by (auto simp: read_Filter_def split: option.splits)
  from r read_strings_keeps [OF assms(1)] read_ints_keeps [OF assms(1)]
    read_TagMap_keeps [OF assms(1)] read_Timestamp_keeps [OF assms(1)] fv
  show ?thesis by (simp add: read_Filter_def)
qed

lemma keeps_trans: "keeps h1 h2 \<Longrightarrow> keeps h2 h3 \<Longrightarrow> keeps h1 h3"
proof -
  assume a: "keeps h1 h2" and b: "keeps h2 h3"
  from a obtain m where m: "length h1 \<le> m" "agree_except m h1 h2" by (auto simp: keeps_def)
  from b obtain m' where m': "length h2 \<le> m'" "agree_except m' h2 h3" by (auto simp: keeps_def)
  from m m' have "agree_except (length h1) h1 h3"
    by (auto simp: agree_except_def)
  then show ?thesis unfolding keeps_def by blast
qed

lemma read_strings_clone:
  assumes "read_strings h s = Some v"
  shows "\<exists>h' s'. slices_Clone_store h s = Some (h', s') \<and> keeps h h'
           \<and> read_strings h' s' = Some v"
proof -
  from assms obtain r where r: "read_slice h s = Some r"
    by (auto simp: read_strings_def split: option.splits)
  from slices_Clone_store_reads [OF r] obtain h' s' ys where
    c: "slices_Clone_store h s = Some (h', s')" "h' = h @ ys" "read_slice h' s' = Some r"
    by blast
  from assms r c(3) have "read_strings h' s' = Some v" by (simp add: read_strings_def)
  with c keeps_append show ?thesis by blast
qed

lemma read_ints_clone:
  assumes "read_ints h s = Some v"
  shows "\<exists>h' s'. slices_Clone_store h s = Some (h', s') \<and> keeps h h'
           \<and> read_ints h' s' = Some v"
proof -
  from assms obtain r where r: "read_slice h s = Some r"
    by (auto simp: read_ints_def split: option.splits)
  from slices_Clone_store_reads [OF r] obtain h' s' ys where
    c: "slices_Clone_store h s = Some (h', s')" "h' = h @ ys" "read_slice h' s' = Some r"
    by blast
  from assms r c(3) have "read_ints h' s' = Some v" by (simp add: read_ints_def)
  with c keeps_append show ?thesis by blast
qed

lemma read_Timestamp_clone:
  assumes "read_Timestamp h p = Some v"
  shows "\<exists>h' p'. clone_Timestamp h p = Some (h', p') \<and> keeps h h'
           \<and> read_Timestamp h' p' = Some v"
proof (cases p)
  case None
  with assms keeps_append [of h "[]"] show ?thesis
    by (simp add: clone_Timestamp_def read_Timestamp_def)
next
  case (Some a)
  with assms obtain t where t: "load h a = Some (TimestampVar t)" "v = Some t"
    by (auto simp: read_Timestamp_def split: option.splits obj.splits)
  with Some keeps_append [of h "[TimestampVar t]"] show ?thesis
    by (simp add: clone_Timestamp_def read_Timestamp_def new_def load_def)
qed

lemma read_TagMap_clone:
  assumes "read_TagMap h tags = Some v"
    and "\<And>m es. tags = Some m \<Longrightarrow> load h m = Some (MapObject es) \<Longrightarrow> distinct (map fst es)"
  shows "\<exists>h' tags'. clone_Tags h tags = Some (h', tags') \<and> keeps h h'
           \<and> read_TagMap h' tags' = Some v"
proof (cases tags)
  case None
  with assms keeps_append [of h "[]"] show ?thesis
    by (simp add: clone_Tags_def read_TagMap_def)
next
  case (Some m)
  with assms(1) obtain es kvs where es: "load h m = Some (MapObject es)"
    and kvs: "those (map (read_entry h) es) = Some kvs" and v: "v = Some (fmap_of_list kvs)"
    by (auto simp: read_TagMap_def split: option.splits obj.splits)
  from assms(2) [OF Some es] have d: "distinct (map fst es)" .
  define h1 where "h1 = h @ [MapObject []]"
  have k1: "keeps h h1" unfolding h1_def by (rule keeps_append)
  have m1: "load h1 (length h) = Some (MapObject [])" by (simp add: h1_def load_def)
  from read_entries_keeps [OF k1 kvs] have kvs1: "those (map (read_entry h1) es) = Some kvs" .
  from clone_entries_reads [OF m1 _ kvs1 d, of "[]"] obtain h' acc' where
    ce: "clone_entries h1 (length h) es = Some h'" and r: "agree_except (length h) h1 h'"
    and m': "load h' (length h) = Some (MapObject acc')"
    and reads: "those (map (read_entry h') acc') = Some kvs" by auto
  have r1: "agree_except (length h) h h1" unfolding h1_def by (rule agree_except_append)
  have "agree_except (length h) h h'" by (rule agree_except_trans [OF r1 r])
  then have "keeps h h'" unfolding keeps_def by blast
  moreover from es ce Some have "clone_Tags h tags = Some (h', Some (length h))"
    by (simp add: clone_Tags_def new_def h1_def)
  moreover from m' reads v have "read_TagMap h' (Some (length h)) = Some v"
    by (simp add: read_TagMap_def)
  ultimately show ?thesis by blast
qed

theorem Clone_store_reads:
  assumes rf: "read_Filter h ef = Some fv" and dk: "distinct_keys h ef"
  shows "\<exists>h' c. Clone_store h ef = Some (h', c) \<and> keeps h h'
           \<and> read_Filter h' c = Some fv \<and> read_Filter h' ef = Some fv"
proof -
  from rf obtain ids kinds authors tags since until where
    r: "read_strings h (sIDs ef) = Some ids" "read_ints h (sKinds ef) = Some kinds"
       "read_strings h (sAuthors ef) = Some authors" "read_TagMap h (sTags ef) = Some tags"
       "read_Timestamp h (sSince ef) = Some since" "read_Timestamp h (sUntil ef) = Some until"
    and fv: "fv = \<lparr>IDs = ids, Kinds = kinds, Authors = authors, Tags = tags,
                   Since = since, Until = until, Limit = sLimit ef,
                   Search = sSearch ef, LimitZero = sLimitZero ef\<rparr>"
    by (auto simp: read_Filter_def split: option.splits)
  from read_strings_clone [OF r(1)] obtain h1 cids where
    1: "slices_Clone_store h (sIDs ef) = Some (h1, cids)" "keeps h h1"
       "read_strings h1 cids = Some ids" by blast
  from read_strings_clone [OF read_strings_keeps [OF 1(2) r(3)]] obtain h2 cauthors where
    2: "slices_Clone_store h1 (sAuthors ef) = Some (h2, cauthors)" "keeps h1 h2"
       "read_strings h2 cauthors = Some authors" by blast
  have k02: "keeps h h2" by (rule keeps_trans [OF 1(2) 2(2)])
  from read_ints_clone [OF read_ints_keeps [OF k02 r(2)]] obtain h3 ckinds where
    3: "slices_Clone_store h2 (sKinds ef) = Some (h3, ckinds)" "keeps h2 h3"
       "read_ints h3 ckinds = Some kinds" by blast
  have k03: "keeps h h3" by (rule keeps_trans [OF k02 3(2)])
  have d3: "distinct (map fst es)" if "sTags ef = Some m" "load h3 m = Some (MapObject es)" for m es
  proof -
    from r(4) that(1) obtain es0 where es0: "load h m = Some (MapObject es0)"
      by (auto simp: read_TagMap_def split: option.splits obj.splits)
    from load_keeps [OF k03 es0] that(2) have "es = es0" by simp
    with dk that(1) es0 show ?thesis by (simp add: distinct_keys_def)
  qed
  have "\<exists>h' tags'. clone_Tags h3 (sTags ef) = Some (h', tags') \<and> keeps h3 h'
           \<and> read_TagMap h' tags' = Some tags"
    by (rule read_TagMap_clone [OF read_TagMap_keeps [OF k03 r(4)]]) (rule d3)
  then obtain h4 ctags where
    4: "clone_Tags h3 (sTags ef) = Some (h4, ctags)" "keeps h3 h4"
       "read_TagMap h4 ctags = Some tags" by blast
  have k04: "keeps h h4" by (rule keeps_trans [OF k03 4(2)])
  from read_Timestamp_clone [OF read_Timestamp_keeps [OF k04 r(5)]] obtain h5 csince where
    5: "clone_Timestamp h4 (sSince ef) = Some (h5, csince)" "keeps h4 h5"
       "read_Timestamp h5 csince = Some since" by blast
  have k05: "keeps h h5" by (rule keeps_trans [OF k04 5(2)])
  from read_Timestamp_clone [OF read_Timestamp_keeps [OF k05 r(6)]] obtain h6 cuntil where
    6: "clone_Timestamp h5 (sUntil ef) = Some (h6, cuntil)" "keeps h5 h6"
       "read_Timestamp h6 cuntil = Some until" by blast
  have k06: "keeps h h6" by (rule keeps_trans [OF k05 6(2)])
  let ?c = "\<lparr>sIDs = cids, sKinds = ckinds, sAuthors = cauthors, sTags = ctags,
                        sSince = csince, sUntil = cuntil, sLimit = sLimit ef,
                        sSearch = sSearch ef, sLimitZero = sLimitZero ef\<rparr>"
  from 1(1) 2(1) 3(1) 4(1) 5(1) 6(1) have cs: "Clone_store h ef = Some (h6, ?c)"
    by (simp add: Clone_store_def)
  have k1: "keeps h1 h6"
    by (rule keeps_trans [OF 2(2) keeps_trans [OF 3(2) keeps_trans [OF 4(2) keeps_trans [OF 5(2) 6(2)]]]])
  have k2: "keeps h2 h6"
    by (rule keeps_trans [OF 3(2) keeps_trans [OF 4(2) keeps_trans [OF 5(2) 6(2)]]])
  have k3: "keeps h3 h6"
    by (rule keeps_trans [OF 4(2) keeps_trans [OF 5(2) 6(2)]])
  have k4: "keeps h4 h6" by (rule keeps_trans [OF 5(2) 6(2)])
  have "read_Filter h6 ?c = Some fv"
    using read_strings_keeps [OF k1 1(3)] read_strings_keeps [OF k2 2(3)]
      read_ints_keeps [OF k3 3(3)] read_TagMap_keeps [OF k4 4(3)]
      read_Timestamp_keeps [OF 6(2) 5(3)] 6(3) fv
    by (simp add: read_Filter_def)
  moreover from read_Filter_keeps [OF k06 rf] have "read_Filter h6 ef = Some fv" .
  ultimately show ?thesis using cs k06 by blast
qed

lemma Clone_value_id: "Clone f = f"
proof -
  have "fmmap ((@) []) m = m" for m :: TagMap
    by (rule fmap_ext) (auto simp: map_option_case split: option.splits)
  then show ?thesis
    by (cases f) (auto simp: Clone_def slices_Clone_def split: option.splits)
qed

lemma keeps_update: "keeps h h1 \<Longrightarrow> length h \<le> a \<Longrightarrow> keeps h (h1[a := x])"
  by (auto simp: keeps_def agree_except_def)

lemma keeps_length: "keeps h h' \<Longrightarrow> length h \<le> length h'"
  by (auto simp: keeps_def agree_except_def)

lemma slices_Clone_store_fresh:
  "slices_Clone_store h s = Some (h', Slice a off n c) \<Longrightarrow> 0 < n \<Longrightarrow> a = length h"
  by (auto simp: slices_Clone_store_def new_def split: slice.splits if_splits option.splits)

lemma slices_Clone_store_length:
  "slices_Clone_store h s = Some (h', s') \<Longrightarrow> length h \<le> length h'"
  by (auto simp: slices_Clone_store_def new_def split: slice.splits if_splits option.splits)

lemma map_assign_length: "map_assign h m k v = Some h' \<Longrightarrow> length h' = length h"
  by (auto simp: map_assign_def split: option.splits obj.splits)

lemma clone_entries_length: "clone_entries h m es = Some h' \<Longrightarrow> length h \<le> length h'"
proof (induction es arbitrary: h)
  case Nil
  then show ?case by simp
next
  case (Cons kv es)
  obtain k v where kv: "kv = (k, v)" by (cases kv)
  from Cons.prems obtain h1 v' h2 where "slices_Clone_store h v = Some (h1, v')"
    "map_assign h1 m k v' = Some h2" "clone_entries h2 m es = Some h'"
    by (auto simp: kv split: option.splits)
  with Cons.IH [of h2] slices_Clone_store_length [of h v h1 v'] map_assign_length [of h1 m k v' h2]
  show ?case by simp
qed

lemma clone_Tags_fresh:
  "clone_Tags h tags = Some (h', Some m) \<Longrightarrow> m = length h"
  by (auto simp: clone_Tags_def new_def split: option.splits obj.splits)

lemma clone_Tags_length: "clone_Tags h tags = Some (h', tags') \<Longrightarrow> length h \<le> length h'"
proof (cases tags)
  case None
  assume "clone_Tags h tags = Some (h', tags')"
  with None show ?thesis by (simp add: clone_Tags_def)
next
  case (Some m)
  assume "clone_Tags h tags = Some (h', tags')"
  with Some obtain es where "clone_entries (h @ [MapObject []]) (length h) es = Some h'"
    by (auto simp: clone_Tags_def new_def split: option.splits obj.splits)
  from clone_entries_length [OF this] show ?thesis by simp
qed

lemma clone_Timestamp_fresh:
  "clone_Timestamp h p = Some (h', Some a) \<Longrightarrow> a = length h"
  by (auto simp: clone_Timestamp_def new_def split: option.splits obj.splits)

lemma clone_Timestamp_length:
  "clone_Timestamp h p = Some (h', p') \<Longrightarrow> length h \<le> length h'"
  by (auto simp: clone_Timestamp_def new_def split: option.splits obj.splits)

lemma Clone_store_fresh:
  assumes "Clone_store h ef = Some (h', c)"
  shows "(\<forall>a off n cp. sIDs c = Slice a off n cp \<and> 0 < n \<longrightarrow> length h \<le> a)
       \<and> (\<forall>m. sTags c = Some m \<longrightarrow> length h \<le> m)
       \<and> (\<forall>a. sSince c = Some a \<longrightarrow> length h \<le> a)
       \<and> (\<forall>a. sUntil c = Some a \<longrightarrow> length h \<le> a)"
proof -
  from assms obtain h1 ids h2 authors h3 kinds h4 tags h5 since until where
    s: "slices_Clone_store h (sIDs ef) = Some (h1, ids)"
       "slices_Clone_store h1 (sAuthors ef) = Some (h2, authors)"
       "slices_Clone_store h2 (sKinds ef) = Some (h3, kinds)"
       "clone_Tags h3 (sTags ef) = Some (h4, tags)"
       "clone_Timestamp h4 (sSince ef) = Some (h5, since)"
       "clone_Timestamp h5 (sUntil ef) = Some (h', until)"
    and c: "c = \<lparr>sIDs = ids, sKinds = kinds, sAuthors = authors, sTags = tags,
                        sSince = since, sUntil = until, sLimit = sLimit ef,
                        sSearch = sSearch ef, sLimitZero = sLimitZero ef\<rparr>"
    by (auto simp: Clone_store_def split: option.splits)
  note len = slices_Clone_store_length [OF s(1)] slices_Clone_store_length [OF s(2)]
    slices_Clone_store_length [OF s(3)] clone_Tags_length [OF s(4)]
    clone_Timestamp_length [OF s(5)]
  have "length h \<le> a" if "ids = Slice a off n cp" "0 < n" for a off n cp
    using slices_Clone_store_fresh [of h "sIDs ef" h1 a off n cp] s(1) that by simp
  moreover have "length h \<le> m" if "tags = Some m" for m
    using clone_Tags_fresh [of h3 "sTags ef" h4 m] s(4) that len by simp
  moreover have "length h \<le> a" if "since = Some a" for a
    using clone_Timestamp_fresh [of h4 "sSince ef" h5 a] s(5) that len by simp
  moreover have "length h \<le> a" if "until = Some a" for a
    using clone_Timestamp_fresh [of h5 "sUntil ef" h' a] s(6) that len by simp
  ultimately show ?thesis unfolding c by simp
qed

theorem Clone_store_frame:
  assumes rf: "read_Filter h ef = Some fv" and dk: "distinct_keys h ef"
    and cl: "Clone_store h ef = Some (h1, c)"
  shows "(assign_ID h1 c i x = Some h2 \<longrightarrow> read_Filter h2 ef = Some fv)
       \<and> (assign_through_Since h1 c t = Some h2 \<longrightarrow> read_Filter h2 ef = Some fv)
       \<and> (sTags c = Some m \<and> map_assign h1 m k v = Some h2 \<longrightarrow> read_Filter h2 ef = Some fv)"
proof -
  from Clone_store_reads [OF rf dk] cl have k: "keeps h h1" by auto
  note fresh = Clone_store_fresh [OF cl]
  have upd: "read_Filter (h1[a := y]) ef = Some fv" if "length h \<le> a" for a y
    by (rule read_Filter_keeps [OF keeps_update [OF k that] rf])
  have 1: "read_Filter h2 ef = Some fv" if "assign_ID h1 c i x = Some h2"
  proof -
    from that obtain a off n cp xs where "sIDs c = Slice a off n cp" "i < n"
      "h2 = h1[a := StringArray (xs[off + i := x])]"
      by (auto simp: assign_ID_def split: slice.splits option.splits obj.splits if_splits)
    with fresh upd show ?thesis by auto
  qed
  have 2: "read_Filter h2 ef = Some fv" if "assign_through_Since h1 c t = Some h2"
  proof -
    from that obtain a where "sSince c = Some a" "h2 = h1[a := TimestampVar t]"
      by (auto simp: assign_through_Since_def split: option.splits)
    with fresh upd show ?thesis by auto
  qed
  have 3: "read_Filter h2 ef = Some fv" if "sTags c = Some m" "map_assign h1 m k v = Some h2"
  proof -
    from that(2) obtain es where "h2 = h1[m := MapObject (AList.update k v es)]"
      by (auto simp: map_assign_def split: option.splits obj.splits)
    with fresh that(1) upd show ?thesis by auto
  qed
  from 1 2 3 show ?thesis by blast
qed

section \<open>The claims\<close>

text \<open>
  C1 (code defect). Claim: for a filter whose IDs, Kinds, Authors, Since and Until are
  nil and an event that is not nil, \<open>Matches\<close> is true if and only if for each tag key
  of the filter some tag of the event with that key matches one of the key's sets, the
  tag being any of the event's tags with the key and not only the first. At the filter
  \<open>{"e": [["1"]]}\<close> and an event with the tags \<open>["e","0"]\<close> and \<open>["e","1"]\<close> the predicate
  of the claim holds, by the second tag, and \<open>Matches\<close> returns false: the loop returns
  false at the first tag with the key \<open>e\<close>, before it sees the second.
\<close>

theorem C1_failing_input:
  "spec_tags_predicate
     (tagmap (Some (fmupd ''e'' [[Some ''1'']] fmempty)))
     [[''e'', ''0''], [''e'', ''1'']]
   \<and> Matches
       \<lparr>IDs = None, Kinds = None, Authors = None,
        Tags = Some (fmupd ''e'' [[Some ''1'']] fmempty),
        Since = None, Until = None, Limit = 0, Search = [], LimitZero = False\<rparr>
       (Some \<lparr>ID = [], PubKey = [], CreatedAt = 0, Kind = 0,
              Tags = [[''e'', ''0''], [''e'', ''1'']], Content = [], Sig = []\<rparr>)
     = Inr False"
  by (simp add: spec_tags_predicate_def spec_set_matches_tag_def tagmap_def Key_def
      Matches_def MatchesIgnoringTimestampConstraints_def slice_from_1_def matchesTagSet_def)

theorem C1_witness:
  "Matches
       \<lparr>IDs = None, Kinds = None, Authors = None,
        Tags = Some (fmupd ''e'' [[Some ''1'']] fmempty),
        Since = None, Until = None, Limit = 0, Search = [], LimitZero = False\<rparr>
       (Some \<lparr>ID = [], PubKey = [], CreatedAt = 0, Kind = 0,
              Tags = [[''e'', ''0''], [''e'', ''1'']], Content = [], Sig = []\<rparr>)
     = Inr False"
  by (rule conjunct2 [OF C1_failing_input])

text \<open>
  C3 (code defect). Claim: \<open>GetTheoreticalLimit\<close> returns the product with the number of
  non-nil \<open>d\<close> values only when the \<open>d\<close> entry has at least one non-nil value, and \<open>-1\<close>
  otherwise. The code tests \<open>len(filter.Tags["d"]) > 0\<close>, the number of sets: at a filter
  with one author, the addressable kind 30023 and the \<open>d\<close> entry \<open>[[nil]]\<close> it returns
  \<open>1 * 1 * 0 = 0\<close>, where the claim gives \<open>-1\<close>; and an event matches this filter, which
  the limit 0 excludes.
\<close>

theorem C3_failing_input:
  "GetTheoreticalLimit
     \<lparr>IDs = None, Kinds = Some [30023], Authors = Some [''a''],
      Tags = Some (fmupd ''d'' [[None]] fmempty),
      Since = None, Until = None, Limit = 0, Search = [], LimitZero = False\<rparr> = 0
   \<and> spec_theoretical_limit
     \<lparr>IDs = None, Kinds = Some [30023], Authors = Some [''a''],
      Tags = Some (fmupd ''d'' [[None]] fmempty),
      Since = None, Until = None, Limit = 0, Search = [], LimitZero = False\<rparr> = - 1
   \<and> Matches
     \<lparr>IDs = None, Kinds = Some [30023], Authors = Some [''a''],
      Tags = Some (fmupd ''d'' [[None]] fmempty),
      Since = None, Until = None, Limit = 0, Search = [], LimitZero = False\<rparr>
     (Some \<lparr>ID = ''1'', PubKey = ''a'', CreatedAt = 0, Kind = 30023,
            Tags = [[''d'', ''x'']], Content = [], Sig = []\<rparr>) = Inr True"
  by (simp add: GetTheoreticalLimit_def spec_theoretical_limit_def d_values_def len_def elems_def
      IsReplaceableKind_def IsAddressableKind_def index_map_def tagmap_def int_mul_def
      Matches_def MatchesIgnoringTimestampConstraints_def Contains_def Key_def slice_from_1_def
      matchesTagSet_def)

text \<open>
  C4. A tag-value set \<open>s\<close> matches an event tag \<open>t\<close> (whose values \<open>t[1:]\<close> the matcher
  passes to \<open>matchesTagSet\<close>) if and only if for every index \<open>i\<close> at which \<open>s[i]\<close> is not
  nil, \<open>t\<close> has an element at position \<open>i+1\<close> and it equals \<open>*s[i]\<close>. In particular the
  filter \<open>{"e": [["1","2","3","4"]]}\<close> does not match an event whose only tag is
  \<open>["e","1","2","3"]\<close>.
\<close>

theorem C4_set_matches_tag:
  "(slice_from_1 t = Inr vs \<longrightarrow>
      matchesTagSet vs s
        = (\<forall>i<length s. \<forall>v. s ! i = Some v \<longrightarrow> Suc i < length t \<and> t ! Suc i = v))
   \<and> Matches
       \<lparr>IDs = None, Kinds = None, Authors = None,
        Tags = Some (fmupd ''e'' [[Some ''1'', Some ''2'', Some ''3'', Some ''4'']] fmempty),
        Since = None, Until = None, Limit = 0, Search = [], LimitZero = False\<rparr>
       (Some \<lparr>ID = [], PubKey = [], CreatedAt = 0, Kind = 0,
              Tags = [[''e'', ''1'', ''2'', ''3'']], Content = [], Sig = []\<rparr>)
     = Inr False"
proof
  show "slice_from_1 t = Inr vs \<longrightarrow>
      matchesTagSet vs s
        = (\<forall>i<length s. \<forall>v. s ! i = Some v \<longrightarrow> Suc i < length t \<and> t ! Suc i = v)"
    using matchesTagSet_spec [of t vs s] by (simp add: spec_set_matches_tag_def)
  show "Matches
       \<lparr>IDs = None, Kinds = None, Authors = None,
        Tags = Some (fmupd ''e'' [[Some ''1'', Some ''2'', Some ''3'', Some ''4'']] fmempty),
        Since = None, Until = None, Limit = 0, Search = [], LimitZero = False\<rparr>
       (Some \<lparr>ID = [], PubKey = [], CreatedAt = 0, Kind = 0,
              Tags = [[''e'', ''1'', ''2'', ''3'']], Content = [], Sig = []\<rparr>)
     = Inr False"
    by (simp add: Matches_def MatchesIgnoringTimestampConstraints_def tagmap_def Key_def
        slice_from_1_def matchesTagSet_def)
qed

theorem C4_witness:
  "slice_from_1 [''e'', ''0'', ''2'', ''3''] = Inr [''0'', ''2'', ''3'']
   \<and> matchesTagSet [''0'', ''2'', ''3''] [None, Some ''2'', None]
   \<and> \<not> matchesTagSet [''0'', ''2'', ''3''] [Some ''1'']"
proof -
  have h: "slice_from_1 [''e'', ''0'', ''2'', ''3''] = Inr [''0'', ''2'', ''3'']"
    by (simp add: slice_from_1_def)
  from C4_set_matches_tag [of "[''e'', ''0'', ''2'', ''3'']" "[''0'', ''2'', ''3'']"] h
  have eq: "\<And>s. matchesTagSet [''0'', ''2'', ''3''] s
      = (\<forall>i<length s. \<forall>v. s ! i = Some v \<longrightarrow>
           Suc i < length [''e'', ''0'', ''2'', ''3''] \<and> [''e'', ''0'', ''2'', ''3''] ! Suc i = v)"
    by blast
  have "matchesTagSet [''0'', ''2'', ''3''] [None, Some ''2'', None]"
    unfolding eq by (simp add: All_less_Suc2)
  moreover have "\<not> matchesTagSet [''0'', ''2'', ''3''] [Some ''1'']"
    unfolding eq by simp
  ultimately show ?thesis using h by simp
qed

text \<open>
  C5. For every filter \<open>f\<close> and event \<open>e\<close>, if \<open>f.Matches(e)\<close> is true then every
  predicate that is enabled holds: the id, the kind and the author of the event are
  members of the filter's lists that are not nil, the creation time lies in the closed
  interval that \<open>Since\<close> and \<open>Until\<close> give, and the tag predicate of the specification
  holds of the filter's tag map and the event's tags.
\<close>

theorem C5_Matches_implies_predicates:
  "Matches f (Some e) = Inr True \<Longrightarrow>
     (\<forall>ids. IDs f = Some ids \<longrightarrow> ID e \<in> set ids) \<and>
     (\<forall>kinds. Kinds f = Some kinds \<longrightarrow> Kind e \<in> set kinds) \<and>
     (\<forall>authors. Authors f = Some authors \<longrightarrow> PubKey e \<in> set authors) \<and>
     (\<forall>since. Since f = Some since \<longrightarrow> since \<le> CreatedAt e) \<and>
     (\<forall>until. Until f = Some until \<longrightarrow> CreatedAt e \<le> until) \<and>
     spec_tags_predicate (tagmap (Filter.Tags f)) (Event.Tags e)"
proof -
  assume m: "Matches f (Some e) = Inr True"
  then have itc: "MatchesIgnoringTimestampConstraints f (Some e) = Inr True"
    by (auto simp: Matches_def split: sum.splits if_splits)
  then have tl: "tags_loop (tagmap (Filter.Tags f)) (Event.Tags e) = Inr True"
    by (auto simp: MatchesIgnoringTimestampConstraints_def split: if_splits)
  from itc have "\<forall>ids. IDs f = Some ids \<longrightarrow> ID e \<in> set ids"
    by (auto simp: MatchesIgnoringTimestampConstraints_def Contains_def split: if_splits)
  moreover from itc have "\<forall>kinds. Kinds f = Some kinds \<longrightarrow> Kind e \<in> set kinds"
    by (auto simp: MatchesIgnoringTimestampConstraints_def Contains_def split: if_splits)
  moreover from itc have "\<forall>authors. Authors f = Some authors \<longrightarrow> PubKey e \<in> set authors"
    by (auto simp: MatchesIgnoringTimestampConstraints_def Contains_def split: if_splits)
  moreover from m itc have "\<forall>since. Since f = Some since \<longrightarrow> since \<le> CreatedAt e"
    by (auto simp: Matches_def created_at_def split: sum.splits if_splits option.splits)
  moreover from m itc have "\<forall>until. Until f = Some until \<longrightarrow> CreatedAt e \<le> until"
    by (auto simp: Matches_def created_at_def split: sum.splits if_splits option.splits)
  moreover note tags_loop_Inr_True [OF tl]
  ultimately show ?thesis by blast
qed

theorem C5_witness:
  "Matches
     \<lparr>IDs = Some [''abc''], Kinds = Some [1], Authors = Some [''p'', ''q''],
      Tags = Some (fmupd ''e'' [[None, Some ''2'', None], [Some ''1'']] fmempty),
      Since = Some 10, Until = Some 20, Limit = 0, Search = [], LimitZero = False\<rparr>
     (Some \<lparr>ID = ''abc'', PubKey = ''q'', CreatedAt = 20, Kind = 1,
            Tags = [[''t'', ''x''], [''e'', ''0'', ''2'', ''3'']], Content = [], Sig = []\<rparr>)
     = Inr True
   \<and> spec_tags_predicate
        (tagmap (Some (fmupd ''e'' [[None, Some ''2'', None], [Some ''1'']] fmempty)))
        [[''t'', ''x''], [''e'', ''0'', ''2'', ''3'']]"
proof -
  have h: "Matches
     \<lparr>IDs = Some [''abc''], Kinds = Some [1], Authors = Some [''p'', ''q''],
      Tags = Some (fmupd ''e'' [[None, Some ''2'', None], [Some ''1'']] fmempty),
      Since = Some 10, Until = Some 20, Limit = 0, Search = [], LimitZero = False\<rparr>
     (Some \<lparr>ID = ''abc'', PubKey = ''q'', CreatedAt = 20, Kind = 1,
            Tags = [[''t'', ''x''], [''e'', ''0'', ''2'', ''3'']], Content = [], Sig = []\<rparr>)
     = Inr True"
    by (simp add: Matches_def MatchesIgnoringTimestampConstraints_def Contains_def tagmap_def
        Key_def slice_from_1_def matchesTagSet_def created_at_def)
  from C5_Matches_implies_predicates [OF h] h show ?thesis by simp
qed

text \<open>
  C6 (code defect). Claim: after \<open>c := f.Clone()\<close> no mutation of \<open>c\<close>, and in particular
  no write through the elements of the tag-value sets of \<open>c.Tags\<close>, changes what \<open>f\<close>
  shows. \<open>Clone\<close> copies each \<open>[]TagValues\<close> with \<open>slices.Clone\<close>, which copies the slice
  headers of the sets and not their arrays; the sets of the clone are the sets of the
  original. In the example store, after the clone, \<open>c.Tags["e"][0][0] = nil\<close> changes
  \<open>f.Tags["e"]\<close> from \<open>[["1"]]\<close> to \<open>[[nil]]\<close>, and \<open>*c.Tags["e"][0][0] = "x"\<close> changes it
  to \<open>[["x"]]\<close>; the writes \<open>c.IDs[0] = "x"\<close> and \<open>*c.Since = 7\<close> leave \<open>f\<close> as it was, as
  they do on every store (theorem \<open>Clone_store_frame\<close>).
\<close>

theorem C6_failing_input:
  "(case Clone_store example_store example_filter of
      None \<Rightarrow> False
    | Some (h1, c) \<Rightarrow>
        read_key h1 example_filter ''e'' = Some [[Some ''1'']]
        \<and> (case assign_tag_value h1 c ''e'' 0 0 None of
              None \<Rightarrow> False
            | Some h2 \<Rightarrow> read_key h2 example_filter ''e'' = Some [[None]])
        \<and> (case assign_through_tag_value h1 c ''e'' 0 0 ''x'' of
              None \<Rightarrow> False
            | Some h2 \<Rightarrow> read_key h2 example_filter ''e'' = Some [[Some ''x'']])
        \<and> (case assign_ID h1 c 0 ''x'' of
              None \<Rightarrow> False
            | Some h2 \<Rightarrow> read_Filter h2 example_filter = read_Filter h1 example_filter)
        \<and> (case assign_through_Since h1 c 7 of
              None \<Rightarrow> False
            | Some h2 \<Rightarrow> read_Filter h2 example_filter = read_Filter h1 example_filter))"
  by code_simp

text \<open>
  C7. For every filter \<open>f\<close>, \<open>FilterEqual(f, f.Clone())\<close> is true: on the values of the
  filter, and on a store, where \<open>Clone\<close> returns a filter whose slices, map and pointers
  read as those of \<open>f\<close>, which itself reads as before.
\<close>

theorem C7_FilterEqual_Clone:
  "FilterEqual f (Clone f)
   \<and> (read_Filter h ef = Some fv \<and> distinct_keys h ef \<longrightarrow>
        (\<exists>h' c cv. Clone_store h ef = Some (h', c) \<and> read_Filter h' ef = Some fv
             \<and> read_Filter h' c = Some cv \<and> FilterEqual fv cv))"
proof
  have eq: "FilterEqual g (Clone g)" for g
    unfolding FilterEqual_def tagmap_Clone using Tags_range_equal [of g]
    by (simp add: Clone_def similar_slices_Clone arePointerValuesEqual_copy)
  show "FilterEqual f (Clone f)" by (rule eq)
  show "read_Filter h ef = Some fv \<and> distinct_keys h ef \<longrightarrow>
        (\<exists>h' c cv. Clone_store h ef = Some (h', c) \<and> read_Filter h' ef = Some fv
             \<and> read_Filter h' c = Some cv \<and> FilterEqual fv cv)"
  proof
    assume a: "read_Filter h ef = Some fv \<and> distinct_keys h ef"
    then have rf: "read_Filter h ef = Some fv" and dk: "distinct_keys h ef" by simp_all
    from Clone_store_reads [OF rf dk] obtain h' c where
      c: "Clone_store h ef = Some (h', c)" "read_Filter h' c = Some fv"
         "read_Filter h' ef = Some fv" by blast
    from eq [of fv] have "FilterEqual fv fv" by (simp add: Clone_value_id)
    with c show "\<exists>h' c cv. Clone_store h ef = Some (h', c) \<and> read_Filter h' ef = Some fv
             \<and> read_Filter h' c = Some cv \<and> FilterEqual fv cv" by blast
  qed
qed

theorem C7_witness:
  "FilterEqual
     \<lparr>IDs = Some [''9894''], Kinds = Some [0, 1, 2], Authors = None,
      Tags = Some (fmupd ''fruit'' [[Some ''banana'']]
               (fmupd ''letter'' [[Some ''a'', Some ''b'']] fmempty)),
      Since = Some 1700000000, Until = None, Limit = 0, Search = [], LimitZero = False\<rparr>
     (Clone
       \<lparr>IDs = Some [''9894''], Kinds = Some [0, 1, 2], Authors = None,
        Tags = Some (fmupd ''fruit'' [[Some ''banana'']]
                 (fmupd ''letter'' [[Some ''a'', Some ''b'']] fmempty)),
        Since = Some 1700000000, Until = None, Limit = 0, Search = [], LimitZero = False\<rparr>)
   \<and> read_Filter example_store example_filter
       = Some \<lparr>IDs = Some [''abc''], Kinds = Some [1], Authors = None,
               Tags = Some (fmap_of_list [(''e'', [[Some ''1'']])]),
               Since = Some 100, Until = None, Limit = 0, Search = [], LimitZero = False\<rparr>
   \<and> distinct_keys example_store example_filter
   \<and> (\<exists>h' c cv. Clone_store example_store example_filter = Some (h', c)
         \<and> read_Filter h' c = Some cv
         \<and> FilterEqual
              \<lparr>IDs = Some [''abc''], Kinds = Some [1], Authors = None,
               Tags = Some (fmap_of_list [(''e'', [[Some ''1'']])]),
               Since = Some 100, Until = None, Limit = 0, Search = [], LimitZero = False\<rparr>
              cv)"
proof -
  have rf: "read_Filter example_store example_filter
       = Some \<lparr>IDs = Some [''abc''], Kinds = Some [1], Authors = None,
               Tags = Some (fmap_of_list [(''e'', [[Some ''1'']])]),
               Since = Some 100, Until = None, Limit = 0, Search = [], LimitZero = False\<rparr>"
    by code_simp
  have dk: "distinct_keys example_store example_filter"
    by code_simp
  note inst = C7_FilterEqual_Clone
    [of "\<lparr>IDs = Some [''9894''], Kinds = Some [0, 1, 2], Authors = None,
        Tags = Some (fmupd ''fruit'' [[Some ''banana'']]
                 (fmupd ''letter'' [[Some ''a'', Some ''b'']] fmempty)),
        Since = Some 1700000000, Until = None, Limit = 0, Search = [], LimitZero = False\<rparr>"
      example_store example_filter
      "\<lparr>IDs = Some [''abc''], Kinds = Some [1], Authors = None,
               Tags = Some (fmap_of_list [(''e'', [[Some ''1'']])]),
               Since = Some 100, Until = None, Limit = 0, Search = [], LimitZero = False\<rparr>"]
  from inst rf dk show ?thesis by blast
qed

text \<open>
  C8. \<open>ParseMessage\<close> returns \<open>ErrMessageUnknown\<close> for every message with no comma, and
  for every message whose bytes before the first comma contain none of the nine labels.
  When these bytes contain a label, the message goes to the \<open>UnmarshalJSON\<close> of an
  envelope type whose label they contain (the first in the order of the switch), and an
  error of that method is returned joined to \<open>ErrMessageParse\<close>.
\<close>

theorem C8_ParseMessage_dispatch:
  "(CHR '','' \<notin> set message \<longrightarrow> ParseMessage unmarshal message = Inl ErrMessageUnknown)
   \<and> (CHR '','' \<in> set message
        \<and> (\<forall>t\<in>set switch_order. \<not> sublist (Label t) (before_first_comma message))
      \<longrightarrow> ParseMessage unmarshal message = Inl ErrMessageUnknown)
   \<and> (CHR '','' \<in> set message
        \<and> sublist (Label t) (before_first_comma message)
        \<and> (\<forall>t'\<in>set (takeWhile (\<lambda>x. x \<noteq> t) switch_order).
               \<not> sublist (Label t') (before_first_comma message))
      \<longrightarrow> ParseMessage unmarshal message =
            (case unmarshal t message of
               (v, Some err) \<Rightarrow> Inl (Join_ErrMessageParse err)
             | (v, None) \<Rightarrow> Inr v))
   \<and> (CHR '','' \<in> set message
        \<and> (\<exists>t\<in>set switch_order. sublist (Label t) (before_first_comma message))
      \<longrightarrow> (\<exists>t\<in>set switch_order. sublist (Label t) (before_first_comma message) \<and>
             ParseMessage unmarshal message =
               (case unmarshal t message of
                  (v, Some err) \<Rightarrow> Inl (Join_ErrMessageParse err)
                | (v, None) \<Rightarrow> Inr v)))"
proof (intro conjI impI)
  assume "CHR '','' \<notin> set message"
  then show "ParseMessage unmarshal message = Inl ErrMessageUnknown"
    by (simp add: ParseMessage_def bytes_Index_def Index_from_none)
next
  assume a: "CHR '','' \<in> set message
        \<and> (\<forall>t\<in>set switch_order. \<not> sublist (Label t) (before_first_comma message))"
  then have "switch_label (before_first_comma message) = None"
    by (simp add: switch_label_None)
  with a label_bytes [of message] show "ParseMessage unmarshal message = Inl ErrMessageUnknown"
    by (simp add: ParseMessage_def Let_def)
next
  assume a: "CHR '','' \<in> set message
        \<and> sublist (Label t) (before_first_comma message)
        \<and> (\<forall>t'\<in>set (takeWhile (\<lambda>x. x \<noteq> t) switch_order).
               \<not> sublist (Label t') (before_first_comma message))"
  then have "switch_label (before_first_comma message) = Some t"
    by (intro switch_label_first) simp_all
  with a label_bytes [of message] show "ParseMessage unmarshal message =
            (case unmarshal t message of
               (v, Some err) \<Rightarrow> Inl (Join_ErrMessageParse err)
             | (v, None) \<Rightarrow> Inr v)"
    by (simp add: ParseMessage_def Let_def)
next
  assume a: "CHR '','' \<in> set message
        \<and> (\<exists>t\<in>set switch_order. sublist (Label t) (before_first_comma message))"
  then have "switch_label (before_first_comma message) \<noteq> None"
    by (simp add: switch_label_None)
  then obtain t where t: "switch_label (before_first_comma message) = Some t" by auto
  then have "sublist (Label t) (before_first_comma message)"
    by (auto simp: switch_label_def bytes_Contains_def split: if_splits)
  moreover have "t \<in> set switch_order" by (cases t) (simp_all add: switch_order_def)
  moreover from t a label_bytes [of message] have "ParseMessage unmarshal message =
               (case unmarshal t message of
                  (v, Some err) \<Rightarrow> Inl (Join_ErrMessageParse err)
                | (v, None) \<Rightarrow> Inr v)"
    by (simp add: ParseMessage_def Let_def)
  ultimately show "\<exists>t\<in>set switch_order. sublist (Label t) (before_first_comma message) \<and>
             ParseMessage unmarshal message =
               (case unmarshal t message of
                  (v, Some err) \<Rightarrow> Inl (Join_ErrMessageParse err)
                | (v, None) \<Rightarrow> Inr v)" by blast
qed

theorem C8_witness:
  "ParseMessage (\<lambda>t m. (t, None :: string option)) ''[\"NOTICE\"]'' = Inl ErrMessageUnknown
   \<and> ParseMessage (\<lambda>t m. (t, None :: string option)) ''[\"FOO\",\"x\"]'' = Inl ErrMessageUnknown
   \<and> ParseMessage (\<lambda>t m. (t, None :: string option)) ''  [\"CLOSE\",\"s\"]'' = Inr CLOSE
   \<and> ParseMessage (\<lambda>t m. (t, Some ''bad'')) ''  [\"CLOSE\",\"s\"]''
       = Inl (Join_ErrMessageParse ''bad'')"
proof -
  have b: "before_first_comma ''  [\"CLOSE\",\"s\"]'' = ''  [\"CLOSE\"''"
    "before_first_comma ''[\"FOO\",\"x\"]'' = ''[\"FOO\"''"
    by (simp_all add: before_first_comma_def)
  have none: "\<forall>t\<in>set switch_order. \<not> sublist (Label t) ''[\"FOO\"''"
    by (simp add: switch_order_def sublist_Cons_right prefix_code)
  have here: "sublist (Label CLOSE) ''  [\"CLOSE\"''"
    by (simp add: sublist_Cons_right prefix_code)
  have first: "\<forall>t'\<in>set (takeWhile (\<lambda>x. x \<noteq> CLOSE) switch_order).
      \<not> sublist (Label t') ''  [\"CLOSE\"''"
    by (simp add: switch_order_def sublist_Cons_right prefix_code)
  from C8_ParseMessage_dispatch [of "''[\"NOTICE\"]''" "\<lambda>t m. (t, None :: string option)"]
  have 1: "ParseMessage (\<lambda>t m. (t, None :: string option)) ''[\"NOTICE\"]''
      = Inl ErrMessageUnknown" by simp
  from C8_ParseMessage_dispatch [of "''[\"FOO\",\"x\"]''" "\<lambda>t m. (t, None :: string option)"]
    b none
  have 2: "ParseMessage (\<lambda>t m. (t, None :: string option)) ''[\"FOO\",\"x\"]''
      = Inl ErrMessageUnknown" by simp
  from C8_ParseMessage_dispatch
    [of "''  [\"CLOSE\",\"s\"]''" "\<lambda>t m. (t, None :: string option)" CLOSE] b here first
  have 3: "ParseMessage (\<lambda>t m. (t, None :: string option)) ''  [\"CLOSE\",\"s\"]'' = Inr CLOSE"
    by simp
  from C8_ParseMessage_dispatch
    [of "''  [\"CLOSE\",\"s\"]''" "\<lambda>t m. (t, Some ''bad'')" CLOSE] b here first
  have 4: "ParseMessage (\<lambda>t m. (t, Some ''bad'')) ''  [\"CLOSE\",\"s\"]''
      = Inl (Join_ErrMessageParse ''bad'')"
    by simp
  from 1 2 3 4 show ?thesis by simp
qed

text \<open>
  C9. When \<open>CountEnvelope.UnmarshalJSON\<close> decodes a COUNT response, that is an array
  of at least three elements whose third decodes to a count \<open>n\<close> and an hll string \<open>h\<close>:
  if the length of \<open>h\<close> is not 512 it succeeds with \<open>Count\<close> set to \<open>n\<close> and \<open>HyperLogLog\<close>
  left as it was (nil, for the envelope that \<open>ParseMessage\<close> creates); if \<open>h\<close> has length
  512 and is valid hex, \<open>HyperLogLog\<close> is set to the 256 decoded bytes; if \<open>h\<close> has length
  512 and is not valid hex, it returns an error.
\<close>

theorem C9_CountEnvelope_hll:
  assumes arr: "parse_array data = arr" and n3: "3 \<le> length arr"
    and cr: "json_Unmarshal (Raw (arr ! 2)) = ((Some n, h), None)"
  shows "(length h \<noteq> 512 \<longrightarrow>
            CountEnvelope_UnmarshalJSON parse_array json_Unmarshal easyjson_Unmarshal v data
              = (v\<lparr>SubscriptionID := Str (arr ! 1), Count := Some n\<rparr>, None))
       \<and> (length h = 512 \<and> valid_hex h \<longrightarrow>
            (\<exists>bs. hex_DecodeString h = (bs, None) \<and> length bs = 256 \<and>
               CountEnvelope_UnmarshalJSON parse_array json_Unmarshal easyjson_Unmarshal v data
                 = (v\<lparr>SubscriptionID := Str (arr ! 1), Count := Some n, HyperLogLog := Some bs\<rparr>, None)))
       \<and> (length h = 512 \<and> \<not> valid_hex h \<longrightarrow>
            (\<exists>v' err. CountEnvelope_UnmarshalJSON parse_array json_Unmarshal easyjson_Unmarshal v data
                 = (v', Some (InvalidHLL err))))"
proof (intro conjI impI)
  assume "length h \<noteq> 512"
  with arr n3 cr show "CountEnvelope_UnmarshalJSON parse_array json_Unmarshal easyjson_Unmarshal v data
              = (v\<lparr>SubscriptionID := Str (arr ! 1), Count := Some n\<rparr>, None)"
    by (simp add: CountEnvelope_UnmarshalJSON_def Let_def)
next
  assume "length h = 512 \<and> valid_hex h"
  then have l: "length h = 512" and vh: "valid_hex h" by simp_all
  from hex_DecodeString_valid [OF vh l] obtain bs where
    bs: "hex_DecodeString h = (bs, None)" "length bs = 256" by blast
  with arr n3 cr l show "\<exists>bs. hex_DecodeString h = (bs, None) \<and> length bs = 256 \<and>
               CountEnvelope_UnmarshalJSON parse_array json_Unmarshal easyjson_Unmarshal v data
                 = (v\<lparr>SubscriptionID := Str (arr ! 1), Count := Some n, HyperLogLog := Some bs\<rparr>, None)"
    by (simp add: CountEnvelope_UnmarshalJSON_def Let_def)
next
  assume "length h = 512 \<and> \<not> valid_hex h"
  then have l: "length h = 512" and vh: "\<not> valid_hex h" by simp_all
  from hex_DecodeString_invalid [OF vh] obtain bs err where
    "hex_DecodeString h = (bs, Some err)" by blast
  with arr n3 cr l show "\<exists>v' err. CountEnvelope_UnmarshalJSON parse_array json_Unmarshal easyjson_Unmarshal v data
                 = (v', Some (InvalidHLL err))"
    by (simp add: CountEnvelope_UnmarshalJSON_def Let_def)
qed

theorem C9_witness:
  "CountEnvelope_UnmarshalJSON
       (\<lambda>d. [\<lparr>Type = gjson_String, Raw = ''COUNT'', Str = ''COUNT''\<rparr>,
              \<lparr>Type = gjson_String, Raw = ''s'', Str = ''s''\<rparr>,
              \<lparr>Type = gjson_JSON, Raw = d, Str = []\<rparr>])
       (\<lambda>raw. ((Some 7, raw), None :: unit option)) (\<lambda>raw x. (x, None))
       \<lparr>SubscriptionID = [], Filters = None, Count = None, HyperLogLog = None\<rparr> ''abcd''
     = (\<lparr>SubscriptionID = ''s'', Filters = None, Count = Some 7, HyperLogLog = None\<rparr>, None)
   \<and> (\<exists>bs. length bs = 256 \<and>
        CountEnvelope_UnmarshalJSON
          (\<lambda>d. [\<lparr>Type = gjson_String, Raw = ''COUNT'', Str = ''COUNT''\<rparr>,
              \<lparr>Type = gjson_String, Raw = ''s'', Str = ''s''\<rparr>,
              \<lparr>Type = gjson_JSON, Raw = d, Str = []\<rparr>])
          (\<lambda>raw. ((Some 7, raw), None :: unit option)) (\<lambda>raw x. (x, None))
          \<lparr>SubscriptionID = [], Filters = None, Count = None, HyperLogLog = None\<rparr>
          (replicate 512 CHR ''a'')
        = (\<lparr>SubscriptionID = ''s'', Filters = None, Count = Some 7, HyperLogLog = Some bs\<rparr>, None))
   \<and> (\<exists>v' err.
        CountEnvelope_UnmarshalJSON
          (\<lambda>d. [\<lparr>Type = gjson_String, Raw = ''COUNT'', Str = ''COUNT''\<rparr>,
              \<lparr>Type = gjson_String, Raw = ''s'', Str = ''s''\<rparr>,
              \<lparr>Type = gjson_JSON, Raw = d, Str = []\<rparr>])
          (\<lambda>raw. ((Some 7, raw), None :: unit option)) (\<lambda>raw x. (x, None))
          \<lparr>SubscriptionID = [], Filters = None, Count = None, HyperLogLog = None\<rparr>
          (replicate 512 CHR ''z'')
        = (v', Some (InvalidHLL err)))"
proof -
  let ?arr = "\<lambda>d. [\<lparr>Type = gjson_String, Raw = ''COUNT'', Str = ''COUNT''\<rparr>,
              \<lparr>Type = gjson_String, Raw = ''s'', Str = ''s''\<rparr>,
              \<lparr>Type = gjson_JSON, Raw = d, Str = []\<rparr>]"
  let ?ju = "\<lambda>raw :: string. ((Some (7 :: int), raw), None :: unit option)"
  let ?eu = "\<lambda>(raw :: string) (x :: Filter). (x, None :: unit option)"
  let ?v = "\<lparr>SubscriptionID = [], Filters = None, Count = None, HyperLogLog = None\<rparr>"
  have va: "valid_hex (replicate 512 CHR ''a'')"
    by (simp add: valid_hex_def hex_digit_def list_all_iff)
  have vz: "\<not> valid_hex (replicate 512 CHR ''z'')"
    by (simp add: valid_hex_def hex_digit_def list_all_iff)
  have hyp: "?arr d = ?arr d" "3 \<le> length (?arr d)" "?ju (Raw (?arr d ! 2)) = ((Some 7, d), None)"
    for d by simp_all
  note inst = C9_CountEnvelope_hll [where parse_array = ?arr and json_Unmarshal = ?ju
      and easyjson_Unmarshal = ?eu and v = ?v and n = 7, OF hyp]
  from inst [of "''abcd''"]
  have 1: "CountEnvelope_UnmarshalJSON ?arr ?ju ?eu ?v ''abcd''
     = (\<lparr>SubscriptionID = ''s'', Filters = None, Count = Some 7, HyperLogLog = None\<rparr>, None)"
    by simp
  from inst [of "replicate 512 CHR ''a''"] va
  have 2: "\<exists>bs. length bs = 256 \<and>
        CountEnvelope_UnmarshalJSON ?arr ?ju ?eu ?v (replicate 512 CHR ''a'')
        = (\<lparr>SubscriptionID = ''s'', Filters = None, Count = Some 7, HyperLogLog = Some bs\<rparr>, None)"
    by auto
  from inst [of "replicate 512 CHR ''z''"] vz
  have 3: "\<exists>v' err. CountEnvelope_UnmarshalJSON ?arr ?ju ?eu ?v (replicate 512 CHR ''z'')
        = (v', Some (InvalidHLL err))"
    by auto
  from 1 2 3 show ?thesis by blast
qed

text \<open>
  C10 (corrected). Claim: for every filter and every event the matcher of src/filter.go
  and the matcher of src/unnamed/part_002 return the same boolean. They differ on a key
  with several sets: src/filter.go accepts the key when one set matches, part_002 only
  when every set does. At the filter \<open>{"k": [["1"], ["2"]]}\<close> and an event with the tag
  \<open>["k","1"]\<close> the first returns true and the second false.
\<close>

theorem C10_counterexample:
  "range_order [(''k'', [[Some ''1''], [Some ''2'']])]
     (tagmap (Some (fmupd ''k'' [[Some ''1''], [Some ''2'']] fmempty)))
   \<and> MatchesIgnoringTimestampConstraints
       \<lparr>IDs = None, Kinds = None, Authors = None,
        Tags = Some (fmupd ''k'' [[Some ''1''], [Some ''2'']] fmempty),
        Since = None, Until = None, Limit = 0, Search = [], LimitZero = False\<rparr>
       (Some \<lparr>ID = [], PubKey = [], CreatedAt = 0, Kind = 0,
              Tags = [[''k'', ''1'']], Content = [], Sig = []\<rparr>)
     = Inr True
   \<and> MatchesIgnoringTimestampConstraints_part_002 [(''k'', [[Some ''1''], [Some ''2'']])]
       \<lparr>IDs = None, Kinds = None, Authors = None,
        Tags = Some (fmupd ''k'' [[Some ''1''], [Some ''2'']] fmempty),
        Since = None, Until = None, Limit = 0, Search = [], LimitZero = False\<rparr>
       (Some \<lparr>ID = [], PubKey = [], CreatedAt = 0, Kind = 0,
              Tags = [[''k'', ''1'']], Content = [], Sig = []\<rparr>)
     = Inr False"
proof (intro conjI)
  show "range_order [(''k'', [[Some ''1''], [Some ''2'']])]
     (tagmap (Some (fmupd ''k'' [[Some ''1''], [Some ''2'']] fmempty)))"
    by (simp add: range_order_def tagmap_def)
  show "MatchesIgnoringTimestampConstraints
       \<lparr>IDs = None, Kinds = None, Authors = None,
        Tags = Some (fmupd ''k'' [[Some ''1''], [Some ''2'']] fmempty),
        Since = None, Until = None, Limit = 0, Search = [], LimitZero = False\<rparr>
       (Some \<lparr>ID = [], PubKey = [], CreatedAt = 0, Kind = 0,
              Tags = [[''k'', ''1'']], Content = [], Sig = []\<rparr>)
     = Inr True"
    by (simp add: tagmap_def MatchesIgnoringTimestampConstraints_def Key_def slice_from_1_def
        matchesTagSet_def)
  show "MatchesIgnoringTimestampConstraints_part_002 [(''k'', [[Some ''1''], [Some ''2'']])]
       \<lparr>IDs = None, Kinds = None, Authors = None,
        Tags = Some (fmupd ''k'' [[Some ''1''], [Some ''2'']] fmempty),
        Since = None, Until = None, Limit = 0, Search = [], LimitZero = False\<rparr>
       (Some \<lparr>ID = [], PubKey = [], CreatedAt = 0, Kind = 0,
              Tags = [[''k'', ''1'']], Content = [], Sig = []\<rparr>)
     = Inr False"
    by (simp add: MatchesIgnoringTimestampConstraints_part_002_def Key_def slice_from_1_def)
qed

text \<open>
  C10 as amended. For every filter, every order in which the range of part_002 visits
  the filter's tag map, and every event whose tags have at least one element each: if
  every tag key of the filter maps to at most one tag-value set, the two matchers return
  the same result; whatever the sets, when part_002 returns true so does src/filter.go;
  and on the nil event both return false.
\<close>

theorem C10_agree_on_single_sets:
  assumes ro: "range_order entries (tagmap (Filter.Tags f))"
    and ne: "event_tags_nonempty e"
  shows "((\<forall>(k, sets)\<in>set entries. length sets \<le> 1) \<longrightarrow>
            MatchesIgnoringTimestampConstraints_part_002 entries f (Some e)
              = MatchesIgnoringTimestampConstraints f (Some e))
       \<and> (MatchesIgnoringTimestampConstraints_part_002 entries f (Some e) = Inr True \<longrightarrow>
            MatchesIgnoringTimestampConstraints f (Some e) = Inr True)
       \<and> MatchesIgnoringTimestampConstraints_part_002 entries f None
              = MatchesIgnoringTimestampConstraints f None"
proof -
  from ne have net: "nonempty_tags (Event.Tags e)" by (simp add: event_tags_nonempty_def)
  note new = tags_loop_entries [OF ro net]
  note old = range_Tags_all [OF net, of entries]
  have one: "range_Tags (Event.Tags e) entries = tags_loop (tagmap (Filter.Tags f)) (Event.Tags e)"
    if "\<forall>(k, sets)\<in>set entries. length sets \<le> 1"
  proof -
    have "(\<forall>(k, sets)\<in>set entries. key_accepted_by_all (Event.Tags e) k sets)
      = (\<forall>(k, sets)\<in>set entries.
           case first_tag k (Event.Tags e) of None \<Rightarrow> False | Some t \<Rightarrow> first_tag_accepts sets t)"
      using that accepts_iff_all by fastforce
    with new old show ?thesis by simp
  qed
  have imp: "tags_loop (tagmap (Filter.Tags f)) (Event.Tags e) = Inr True"
    if "range_Tags (Event.Tags e) entries = Inr True"
  proof -
    from that old have "\<forall>(k, sets)\<in>set entries. key_accepted_by_all (Event.Tags e) k sets" by simp
    then have "\<forall>(k, sets)\<in>set entries.
           case first_tag k (Event.Tags e) of None \<Rightarrow> False | Some t \<Rightarrow> first_tag_accepts sets t"
      using accepts_of_all by fastforce
    with new show ?thesis by simp
  qed
  show ?thesis
    using one imp
    by (auto simp: MatchesIgnoringTimestampConstraints_part_002_def
        MatchesIgnoringTimestampConstraints_def)
qed

theorem C10_witness:
  "range_order [(''e'', [[None, Some ''2'']]), (''p'', [])]
     (tagmap (Some (fmupd ''e'' [[None, Some ''2'']] (fmupd ''p'' [] fmempty))))
   \<and> event_tags_nonempty
       \<lparr>ID = [], PubKey = [], CreatedAt = 0, Kind = 0,
        Tags = [[''p''], [''e'', ''1'', ''2'']], Content = [], Sig = []\<rparr>
   \<and> MatchesIgnoringTimestampConstraints_part_002 [(''e'', [[None, Some ''2'']]), (''p'', [])]
       \<lparr>IDs = None, Kinds = None, Authors = None,
        Tags = Some (fmupd ''e'' [[None, Some ''2'']] (fmupd ''p'' [] fmempty)),
        Since = None, Until = None, Limit = 0, Search = [], LimitZero = False\<rparr>
       (Some \<lparr>ID = [], PubKey = [], CreatedAt = 0, Kind = 0,
              Tags = [[''p''], [''e'', ''1'', ''2'']], Content = [], Sig = []\<rparr>)
     = Inr True
   \<and> MatchesIgnoringTimestampConstraints
       \<lparr>IDs = None, Kinds = None, Authors = None,
        Tags = Some (fmupd ''e'' [[None, Some ''2'']] (fmupd ''p'' [] fmempty)),
        Since = None, Until = None, Limit = 0, Search = [], LimitZero = False\<rparr>
       (Some \<lparr>ID = [], PubKey = [], CreatedAt = 0, Kind = 0,
              Tags = [[''p''], [''e'', ''1'', ''2'']], Content = [], Sig = []\<rparr>)
     = Inr True"
proof -
  let ?f = "\<lparr>IDs = None, Kinds = None, Authors = None,
        Tags = Some (fmupd ''e'' [[None, Some ''2'']] (fmupd ''p'' [] fmempty)),
        Since = None, Until = None, Limit = 0, Search = [], LimitZero = False\<rparr>"
  let ?e = "\<lparr>ID = [], PubKey = [], CreatedAt = 0, Kind = 0,
        Tags = [[''p''], [''e'', ''1'', ''2'']], Content = [], Sig = []\<rparr>"
  let ?entries = "[(''e'', [[None, Some ''2'']]), (''p'', [])]"
  have ro: "range_order ?entries (tagmap (Filter.Tags ?f))"
    by (simp add: range_order_def tagmap_def)
  have ne: "event_tags_nonempty ?e"
    by (simp add: event_tags_nonempty_def nonempty_tags_def)
  have old: "MatchesIgnoringTimestampConstraints_part_002 ?entries ?f (Some ?e) = Inr True"
    by (simp add: MatchesIgnoringTimestampConstraints_part_002_def Key_def slice_from_1_def)
  from C10_agree_on_single_sets [OF ro ne] old
  have new: "MatchesIgnoringTimestampConstraints ?f (Some ?e) = Inr True" by blast
  have ro': "range_order ?entries
      (tagmap (Some (fmupd ''e'' [[None, Some ''2'']] (fmupd ''p'' [] fmempty))))"
    using ro by (simp only: Filter.simps)
  show ?thesis by (intro conjI ro' ne old new)
qed

end
